theory Spec2Isabelle
  imports Main "HOL-Library.Word"
begin

unbundle bit_operations_syntax

section \<open>Values, errors and the byte cursor\<close>

text \<open>
  The embedding follows \<^verbatim>\<open>src/jettison.js\<close>; the second source file of the repository,
  an earlier revision of the same module, is embedded under names that start with
  \<^verbatim>\<open>part0_\<close> wherever it differs.

  JavaScript values are a datatype. Numbers are the integer-valued ones (\<open>JNum\<close>);
  strings are lists of Unicode scalar values; an object is the association list of its
  own properties, read with \<open>object_get\<close>, which follows the prototype chain: a key
  the object lacks yields what \<^verbatim>\<open>Object.prototype\<close> has under it (\<open>JInherited\<close>), and
  \<open>JUndefined\<close> when that has nothing either.
  Exceptions are values of \<open>error\<close>. \<open>Unmodelled\<close> marks the places the embedding does
  not follow: IEEE-754 floats, \<^verbatim>\<open>ToNumber\<close>/\<^verbatim>\<open>ToString\<close> coercions of strings, arrays
  and objects, and what a lookup finds in an object whose prototype an assignment to
  \<^verbatim>\<open>__proto__\<close> has replaced. No theorem below rests on an \<open>Unmodelled\<close> result.
\<close>

datatype jsvalue =
    JUndefined
  | JBool bool
  | JNum int
  | JStr "nat list"
  | JArr "jsvalue list"
  | JObj "(string \<times> jsvalue) list"
  | JInherited string

text \<open>
  The property names of \<^verbatim>\<open>Object.prototype\<close>, which every plain object (\<^verbatim>\<open>{}\<close>) inherits:
  its functions and the accessor \<^verbatim>\<open>__proto__\<close>, which yields the prototype itself. So
  \<^verbatim>\<open>x[key]\<close> on a plain object that has no own property \<^verbatim>\<open>key\<close> is \<^verbatim>\<open>undefined\<close> only
  when \<^verbatim>\<open>key\<close> is none of these names; for one of them it is a function or an object,
  \<open>JInherited key\<close>, which is truthy, is not \<^verbatim>\<open>null\<close> and has none of the properties
  of a codec or a definition. A number has the members of \<^verbatim>\<open>Number.prototype\<close> as well.
\<close>

definition Object_prototype_keys :: "string list" where
  "Object_prototype_keys =
     [''constructor'', ''__defineGetter__'', ''__defineSetter__'', ''hasOwnProperty'',
      ''__lookupGetter__'', ''__lookupSetter__'', ''isPrototypeOf'', ''propertyIsEnumerable'',
      ''toString'', ''valueOf'', ''__proto__'', ''toLocaleString'']"

definition Number_prototype_keys :: "string list" where
  "Number_prototype_keys = [''toExponential'', ''toFixed'', ''toPrecision'']"

datatype utf8_error = InvalidByteIndex | InvalidContinuationByte | InvalidUTF8

datatype error =
    RangeError
  | TypeError
  | ByteLengthNotPositive
  | NotADataViewMethod
  | FloatByteLength
  | KeyRequired
  | InvalidType "string option"
  | InvalidArrayValueType "string option"
  | InvalidDefinitionType string
  | IdNotDefined int
  | KeyNotDefined string
  | Utf8Error utf8_error
  | Unmodelled

type_synonym byte = "8 word"

text \<open>JavaScript truthiness, as \<^verbatim>\<open>if (value)\<close> and \<^verbatim>\<open>value ? 1 : 0\<close> use it.\<close>

fun truthy :: "jsvalue \<Rightarrow> bool" where
  "truthy JUndefined = False"
| "truthy (JBool b) = b"
| "truthy (JNum n) = (n \<noteq> 0)"
| "truthy (JStr s) = (s \<noteq> [])"
| "truthy (JArr vs) = True"
| "truthy (JObj kvs) = True"
| "truthy (JInherited k) = True"

text \<open>
  \<^verbatim>\<open>ToNumber\<close> on the values whose conversion is modelled: \<open>Inr None\<close> is NaN. A
  member of \<^verbatim>\<open>Object.prototype\<close> converts through its string form, which is no numeral.
\<close>

fun ToNumber :: "jsvalue \<Rightarrow> error + int option" where
  "ToNumber JUndefined = Inr None"
| "ToNumber (JBool b) = Inr (Some (if b then 1 else 0))"
| "ToNumber (JNum n) = Inr (Some n)"
| "ToNumber (JStr s) = Inl Unmodelled"
| "ToNumber (JArr vs) = Inl Unmodelled"
| "ToNumber (JObj kvs) = Inl Unmodelled"
| "ToNumber (JInherited k) = Inr None"

subsection \<open>DataView\<close>

text \<open>
  Modelled from the spec: \<^verbatim>\<open>DataView\<close> and \<^verbatim>\<open>ArrayBuffer\<close> come from the host, or from
  \<^verbatim>\<open>polyfill.js\<close>, which is not under \<^verbatim>\<open>src/\<close>. The spec (4.1) gives the contract: a
  zero-initialised buffer of fixed capacity, typed reads and writes at an offset in the
  byte order the flag selects, and a fatal error when offset + width exceeds the
  capacity. Integer writes store the value modulo \<open>2 ^ bits\<close>, a NaN as 0; signed reads
  are two's complement.
\<close>

datatype accessor = IntN nat | UintN nat | FloatN nat

fun is_DataView_method :: "accessor \<Rightarrow> bool" where
  "is_DataView_method (IntN bits) = (bits = 8 \<or> bits = 16 \<or> bits = 32)"
| "is_DataView_method (UintN bits) = (bits = 8 \<or> bits = 16 \<or> bits = 32)"
| "is_DataView_method (FloatN bits) = (bits = 32 \<or> bits = 64)"

fun le_bytes :: "nat \<Rightarrow> int \<Rightarrow> byte list" where
  "le_bytes 0 v = []"
| "le_bytes (Suc n) v = word_of_int v # le_bytes n (v div 256)"

fun le_value :: "byte list \<Rightarrow> int" where
  "le_value [] = 0"
| "le_value (b # bs) = uint b + 256 * le_value bs"

definition byte_order :: "bool \<Rightarrow> byte list \<Rightarrow> byte list" where
  "byte_order littleEndian bs = (if littleEndian then bs else rev bs)"

fun accessor_bytes :: "accessor \<Rightarrow> nat" where
  "accessor_bytes (IntN bits) = bits div 8"
| "accessor_bytes (UintN bits) = bits div 8"
| "accessor_bytes (FloatN bits) = bits div 8"

definition DataView_getUint :: "nat \<Rightarrow> byte list \<Rightarrow> nat \<Rightarrow> bool \<Rightarrow> error + int" where
  "DataView_getUint n buf byteOffset littleEndian =
     (if byteOffset + n > length buf then Inl RangeError
      else Inr (le_value (byte_order littleEndian (take n (drop byteOffset buf)))))"

definition DataView_getInt :: "nat \<Rightarrow> byte list \<Rightarrow> nat \<Rightarrow> bool \<Rightarrow> error + int" where
  "DataView_getInt n buf byteOffset littleEndian =
     (case DataView_getUint n buf byteOffset littleEndian of
        Inl e \<Rightarrow> Inl e
      | Inr u \<Rightarrow> Inr (if u \<ge> 2 ^ (8 * n - 1) then u - 2 ^ (8 * n) else u))"

definition DataView_setInt :: "nat \<Rightarrow> byte list \<Rightarrow> nat \<Rightarrow> int \<Rightarrow> bool \<Rightarrow> error + byte list" where
  "DataView_setInt n buf byteOffset v littleEndian =
     (if byteOffset + n > length buf then Inl RangeError
      else Inr (take byteOffset buf @ byte_order littleEndian (le_bytes n v)
                @ drop (byteOffset + n) buf))"

fun DataView_get :: "accessor \<Rightarrow> byte list \<Rightarrow> nat \<Rightarrow> bool \<Rightarrow> error + jsvalue" where
  "DataView_get (UintN bits) buf byteOffset littleEndian =
     map_sum id JNum (DataView_getUint (bits div 8) buf byteOffset littleEndian)"
| "DataView_get (IntN bits) buf byteOffset littleEndian =
     map_sum id JNum (DataView_getInt (bits div 8) buf byteOffset littleEndian)"
| "DataView_get (FloatN bits) buf byteOffset littleEndian =
     (if byteOffset + bits div 8 > length buf then Inl RangeError else Inl Unmodelled)"

definition DataView_set ::
  "accessor \<Rightarrow> byte list \<Rightarrow> nat \<Rightarrow> jsvalue \<Rightarrow> bool \<Rightarrow> error + byte list" where
  "DataView_set acc buf byteOffset v littleEndian =
     (if byteOffset + accessor_bytes acc > length buf then Inl RangeError
      else case acc of
             FloatN bits \<Rightarrow> Inl Unmodelled
           | _ \<Rightarrow> (case ToNumber v of
                     Inl e \<Rightarrow> Inl e
                   | Inr None \<Rightarrow> DataView_setInt (accessor_bytes acc) buf byteOffset 0 littleEndian
                   | Inr (Some n) \<Rightarrow>
                       DataView_setInt (accessor_bytes acc) buf byteOffset n littleEndian))"

subsection \<open>StreamView\<close>

record StreamView =
  dataView :: "byte list"
  byteOffset :: nat

definition StreamView_create :: "nat \<Rightarrow> StreamView" where
  "StreamView_create byteLength = \<lparr>dataView = replicate byteLength 0, byteOffset = 0\<rparr>"

section \<open>Fixed-length codecs\<close>

record FixedLengthCodec =
  byteLength :: nat
  getter :: accessor
  setter :: accessor

definition FixedLengthCodec_new :: "nat \<Rightarrow> accessor \<Rightarrow> accessor \<Rightarrow> error + FixedLengthCodec" where
  "FixedLengthCodec_new bl g s =
     (if bl \<le> 0 then Inl ByteLengthNotPositive
      else if \<not> is_DataView_method g then Inl NotADataViewMethod
      else if \<not> is_DataView_method s then Inl NotADataViewMethod
      else Inr \<lparr>byteLength = bl, getter = g, setter = s\<rparr>)"

definition FixedLengthCodec_get ::
  "'a FixedLengthCodec_scheme \<Rightarrow> StreamView \<Rightarrow> bool \<Rightarrow> error + jsvalue \<times> StreamView" where
  "FixedLengthCodec_get c sv littleEndian =
     (case DataView_get (getter c) (dataView sv) (byteOffset sv) littleEndian of
        Inl e \<Rightarrow> Inl e
      | Inr v \<Rightarrow> Inr (v, sv\<lparr>byteOffset := byteOffset sv + byteLength c\<rparr>))"

definition FixedLengthCodec_set ::
  "'a FixedLengthCodec_scheme \<Rightarrow> StreamView \<Rightarrow> jsvalue \<Rightarrow> bool \<Rightarrow> error + StreamView" where
  "FixedLengthCodec_set c sv v littleEndian =
     (case DataView_set (setter c) (dataView sv) (byteOffset sv) v littleEndian of
        Inl e \<Rightarrow> Inl e
      | Inr buf \<Rightarrow> Inr (sv\<lparr>dataView := buf, byteOffset := byteOffset sv + byteLength c\<rparr>))"

record IntegerCodec = FixedLengthCodec +
  minValue :: int
  maxValue :: int

definition IntegerCodec_new :: "nat \<Rightarrow> bool \<Rightarrow> error + IntegerCodec" where
  "IntegerCodec_new bl is_signed =
     (let bitLength = bl * 8;
          (g, s, lo, hi) =
            (if is_signed
             then (IntN bitLength, IntN bitLength, - (2 ^ (bitLength - 1)), 2 ^ (bitLength - 1) - 1)
             else (UintN bitLength, UintN bitLength, 0, 2 ^ bitLength - 1))
      in case FixedLengthCodec_new bl g s of
           Inl e \<Rightarrow> Inl e
         | Inr c \<Rightarrow> Inr \<lparr>byteLength = byteLength c, getter = getter c, setter = setter c,
                          minValue = lo, maxValue = hi\<rparr>)"

text \<open>
  \<^verbatim>\<open>value < this.minValue\<close> and \<^verbatim>\<open>value > this.maxValue\<close>: a comparison with NaN is false.
\<close>

definition IntegerCodec_set ::
  "IntegerCodec \<Rightarrow> StreamView \<Rightarrow> jsvalue \<Rightarrow> bool \<Rightarrow> error + StreamView" where
  "IntegerCodec_set c sv v littleEndian =
     (case ToNumber v of
        Inl e \<Rightarrow> Inl e
      | Inr None \<Rightarrow> FixedLengthCodec_set c sv v littleEndian
      | Inr (Some n) \<Rightarrow>
          (let v' = (if n < minValue c then JNum (minValue c)
                     else if n > maxValue c then JNum (maxValue c)
                     else v)
           in FixedLengthCodec_set c sv v' littleEndian))"

text \<open>The shared instances of \<^verbatim>\<open>_codecs\<close> that are integer codecs.\<close>

definition codecs_int8 :: IntegerCodec where
  "codecs_int8 = \<lparr>byteLength = 1, getter = IntN 8, setter = IntN 8,
                  minValue = - 128, maxValue = 127\<rparr>"

definition codecs_int16 :: IntegerCodec where
  "codecs_int16 = \<lparr>byteLength = 2, getter = IntN 16, setter = IntN 16,
                   minValue = - 32768, maxValue = 32767\<rparr>"

definition codecs_int32 :: IntegerCodec where
  "codecs_int32 = \<lparr>byteLength = 4, getter = IntN 32, setter = IntN 32,
                   minValue = - 2147483648, maxValue = 2147483647\<rparr>"

definition codecs_uint8 :: IntegerCodec where
  "codecs_uint8 = \<lparr>byteLength = 1, getter = UintN 8, setter = UintN 8,
                   minValue = 0, maxValue = 255\<rparr>"

definition codecs_uint16 :: IntegerCodec where
  "codecs_uint16 = \<lparr>byteLength = 2, getter = UintN 16, setter = UintN 16,
                    minValue = 0, maxValue = 65535\<rparr>"

definition codecs_uint32 :: IntegerCodec where
  "codecs_uint32 = \<lparr>byteLength = 4, getter = UintN 32, setter = UintN 32,
                    minValue = 0, maxValue = 4294967295\<rparr>"

text \<open>The value the spec calls the clamp of \<open>v\<close> to \<open>[lo, hi]\<close>.\<close>

definition clamp :: "int \<Rightarrow> int \<Rightarrow> int \<Rightarrow> int" where
  "clamp v lo hi = (if v < lo then lo else if v > hi then hi else v)"

section \<open>Boolean codec\<close>

definition codecs_boolean :: FixedLengthCodec where
  "codecs_boolean = \<lparr>byteLength = 1, getter = UintN 8, setter = UintN 8\<rparr>"

definition BooleanCodec_get ::
  "FixedLengthCodec \<Rightarrow> StreamView \<Rightarrow> bool \<Rightarrow> error + jsvalue \<times> StreamView" where
  "BooleanCodec_get c sv littleEndian =
     (case FixedLengthCodec_get c sv littleEndian of
        Inl e \<Rightarrow> Inl e
      | Inr (v, sv') \<Rightarrow> Inr (JBool (if truthy v then True else False), sv'))"

definition BooleanCodec_set ::
  "FixedLengthCodec \<Rightarrow> StreamView \<Rightarrow> jsvalue \<Rightarrow> bool \<Rightarrow> error + StreamView" where
  "BooleanCodec_set c sv v littleEndian =
     FixedLengthCodec_set c sv (JNum (if truthy v then 1 else 0)) littleEndian"

section \<open>JavaScript's 32-bit operators\<close>

text \<open>
  \<^verbatim>\<open>&\<close>, \<^verbatim>\<open>|\<close>, \<^verbatim>\<open><<\<close> and \<^verbatim>\<open>>>\<close> convert their operands to signed 32-bit integers, work
  on those, and yield a signed 32-bit integer; a shift count is taken modulo 32 and
  \<^verbatim>\<open>>>\<close> keeps the sign. On \<open>int\<close> the bit operations are those of two's complement,
  so only the conversion has to be written out.
\<close>

definition ToInt32 :: "int \<Rightarrow> int" where
  "ToInt32 x = signed_take_bit 31 x"

definition js_and :: "int \<Rightarrow> int \<Rightarrow> int" where
  "js_and a b = ToInt32 a AND ToInt32 b"

definition js_or :: "int \<Rightarrow> int \<Rightarrow> int" where
  "js_or a b = ToInt32 a OR ToInt32 b"

definition js_shl :: "int \<Rightarrow> nat \<Rightarrow> int" where
  "js_shl a n = ToInt32 (push_bit (n mod 32) (ToInt32 a))"

definition js_sar :: "int \<Rightarrow> nat \<Rightarrow> int" where
  "js_sar a n = drop_bit (n mod 32) (ToInt32 a)"

section \<open>Variable-length unsigned integer codec\<close>

text \<open>
  Modelled from the spec: \<^verbatim>\<open>polyfill.log2\<close> is not under \<^verbatim>\<open>src/\<close>. The spec (4.3) reads
  \<^verbatim>\<open>Math.floor(log2(value)) + 1\<close> as \<open>bitsNeeded(value)\<close>, the position of the highest
  set bit plus one, and says that the logarithm is undefined at 0. \<open>Math_floor_log2\<close> is
  that exact integer logarithm of a positive integer, and \<open>None\<close>, for \<^verbatim>\<open>-Infinity\<close>, at 0;
  the rounding of a floating-point logarithm is not modelled.
\<close>

fun bitsNeeded :: "nat \<Rightarrow> nat" where
  "bitsNeeded n = (if n = 0 then 0 else Suc (bitsNeeded (n div 2)))"

declare bitsNeeded.simps [simp del]

definition Math_floor_log2 :: "nat \<Rightarrow> int option" where
  "Math_floor_log2 v = (if v = 0 then None else Some (int (bitsNeeded v) - 1))"

text \<open>\<^verbatim>\<open>Math.ceil(a / b)\<close> for an integer \<open>a\<close> and a positive integer \<open>b\<close>.\<close>

definition Math_ceil_div :: "int \<Rightarrow> int \<Rightarrow> int" where
  "Math_ceil_div a b = - ((- a) div b)"

text \<open>
  \<^verbatim>\<open>getByteLength\<close>: with \<^verbatim>\<open>bits = -Infinity\<close> the quotient and its ceiling are
  \<^verbatim>\<open>-Infinity\<close>, and \<^verbatim>\<open>Math.max(-Infinity, 1)\<close> is 1.
\<close>

definition VariableLengthUnsignedIntegerCodec_getByteLength :: "nat \<Rightarrow> nat" where
  "VariableLengthUnsignedIntegerCodec_getByteLength v =
     (let bits = map_option (\<lambda>l. l + 1) (Math_floor_log2 v);
          bytes = (case bits of None \<Rightarrow> 1 | Some b \<Rightarrow> max (Math_ceil_div b 7) 1)
      in nat bytes * byteLength codecs_uint8)"

text \<open>
  Reading one byte advances the cursor, which never passes the end of the buffer: the
  measure of the \<^verbatim>\<open>get\<close> loop.
\<close>

lemma FixedLengthCodec_get_uint8_advances:
  assumes "FixedLengthCodec_get codecs_uint8 sv le = Inr (v, sv')"
  shows "length (dataView sv') - byteOffset sv' < length (dataView sv) - byteOffset sv"
  using assms
  by (auto simp: FixedLengthCodec_get_def codecs_uint8_def DataView_getUint_def
           split: sum.splits if_splits)

text \<open>
  \<^verbatim>\<open>for (let i = 0, byte = 128; (byte & 128) !== 0; i++) { ... }\<close>: the loop state is
  \<open>(i, byte, length)\<close> and the cursor.
\<close>

function VariableLengthUnsignedIntegerCodec_get_loop ::
  "nat \<Rightarrow> int \<Rightarrow> int \<Rightarrow> StreamView \<Rightarrow> bool \<Rightarrow> error + int \<times> StreamView" where
  "VariableLengthUnsignedIntegerCodec_get_loop i byte len sv littleEndian =
     (if js_and byte 128 \<noteq> 0
      then (case FixedLengthCodec_get codecs_uint8 sv littleEndian of
              Inl e \<Rightarrow> Inl e
            | Inr (v, sv') \<Rightarrow>
                (case ToNumber v of
                   Inl e \<Rightarrow> Inl e
                 | Inr None \<Rightarrow> Inl Unmodelled
                 | Inr (Some byte') \<Rightarrow>
                     VariableLengthUnsignedIntegerCodec_get_loop (i + 1) byte'
                       (js_or len (js_shl (js_and byte' 127) (i * 7))) sv' littleEndian))
      else Inr (len, sv))"
  by pat_completeness auto
termination
  by (relation "measure (\<lambda>(i, byte, len, sv, le). length (dataView sv) - byteOffset sv)")
     (auto dest: FixedLengthCodec_get_uint8_advances)

declare VariableLengthUnsignedIntegerCodec_get_loop.simps [simp del]

definition VariableLengthUnsignedIntegerCodec_get ::
  "StreamView \<Rightarrow> bool \<Rightarrow> error + int \<times> StreamView" where
  "VariableLengthUnsignedIntegerCodec_get sv littleEndian =
     VariableLengthUnsignedIntegerCodec_get_loop 0 128 0 sv littleEndian"

lemma js_sar_decreases:
  assumes "0 < r" "0 < js_sar r 7"
  shows "js_sar r 7 < r"
proof -
  let ?t = "signed_take_bit 31 r"
  have t: "?t \<le> r" using assms(1) by (simp add: signed_take_bit_int_less_eq_self_iff)
  have d: "js_sar r 7 = ?t div 128" by (simp add: js_sar_def ToInt32_def drop_bit_eq_div)
  with assms(2) have "128 \<le> ?t" by (simp add: pos_imp_zdiv_pos_iff)
  then have "?t div 128 < ?t" by simp
  with d t show ?thesis by simp
qed

text \<open>\<^verbatim>\<open>while (remainder > 0) { ... }\<close>\<close>

function VariableLengthUnsignedIntegerCodec_set_loop ::
  "StreamView \<Rightarrow> int \<Rightarrow> bool \<Rightarrow> error + StreamView" where
  "VariableLengthUnsignedIntegerCodec_set_loop sv remainder littleEndian =
     (if remainder > 0
      then (let byte = js_and remainder 127;
                remainder' = js_sar remainder 7;
                byte' = (if remainder' \<noteq> 0 then js_or byte 128 else byte)
            in case IntegerCodec_set codecs_uint8 sv (JNum byte') littleEndian of
                 Inl e \<Rightarrow> Inl e
               | Inr sv' \<Rightarrow>
                   VariableLengthUnsignedIntegerCodec_set_loop sv' remainder' littleEndian)
      else Inr sv)"
  by pat_completeness auto
termination
proof (relation "measure (\<lambda>(sv, remainder, le). nat remainder)", goal_cases)
  case 1
  show ?case by simp
next
  case (2 sv remainder littleEndian byte remainder' byte' sv')
  then show ?case
    using js_sar_decreases [of remainder] by (cases "0 < js_sar remainder 7") auto
qed

declare VariableLengthUnsignedIntegerCodec_set_loop.simps [simp del]

definition VariableLengthUnsignedIntegerCodec_set ::
  "StreamView \<Rightarrow> jsvalue \<Rightarrow> bool \<Rightarrow> error + StreamView" where
  "VariableLengthUnsignedIntegerCodec_set sv v littleEndian =
     (if \<not> truthy v then IntegerCodec_set codecs_uint8 sv (JNum 0) littleEndian
      else case ToNumber v of
             Inl e \<Rightarrow> Inl e
           | Inr None \<Rightarrow> Inr sv
           | Inr (Some remainder) \<Rightarrow>
               VariableLengthUnsignedIntegerCodec_set_loop sv remainder littleEndian)"

text \<open>
  The encoding as the spec words it (4.3): 7-bit groups, least-significant group first,
  one group in the low 7 bits of each byte, the high bit set when more groups remain;
  zero is the single byte 0.
\<close>

function spec_varint :: "nat \<Rightarrow> byte list" where
  "spec_varint v =
     (if v < 128 then [of_nat v] else of_nat (v mod 128 + 128) # spec_varint (v div 128))"
  by pat_completeness auto
termination
  by (relation "measure id") auto

declare spec_varint.simps [simp del]

text \<open>
  Two notions for stating what a write leaves in the buffer and what a read finds
  there: \<open>write_bytes sv bs\<close> is the cursor after \<open>bs\<close> has been stored at the offset of
  \<open>sv\<close>, and \<open>holds_at sv bs\<close> says that the buffer of \<open>sv\<close> holds \<open>bs\<close> at its offset.
\<close>

definition write_bytes :: "StreamView \<Rightarrow> byte list \<Rightarrow> StreamView" where
  "write_bytes sv bs =
     sv\<lparr>dataView := take (byteOffset sv) (dataView sv) @ bs
                      @ drop (byteOffset sv + length bs) (dataView sv),
        byteOffset := byteOffset sv + length bs\<rparr>"

definition holds_at :: "StreamView \<Rightarrow> byte list \<Rightarrow> bool" where
  "holds_at sv bs \<longleftrightarrow>
     byteOffset sv + length bs \<le> length (dataView sv)
     \<and> take (length bs) (drop (byteOffset sv) (dataView sv)) = bs"

section \<open>Boolean array codec\<close>

text \<open>
  \<^verbatim>\<open>(values && values.length) || 0\<close> and \<^verbatim>\<open>values[i]\<close>. A non-empty string, an object
  that has a \<^verbatim>\<open>length\<close> property or a function in the place of an array is not followed.
\<close>

fun values_length :: "jsvalue \<Rightarrow> error + nat" where
  "values_length JUndefined = Inr 0"
| "values_length (JBool b) = Inr 0"
| "values_length (JNum n) = Inr 0"
| "values_length (JStr s) = (if s = [] then Inr 0 else Inl Unmodelled)"
| "values_length (JArr vs) = Inr (length vs)"
| "values_length (JObj kvs) = (if map_of kvs ''length'' = None then Inr 0 else Inl Unmodelled)"
| "values_length (JInherited k) = Inl Unmodelled"

fun values_elements :: "jsvalue \<Rightarrow> jsvalue list" where
  "values_elements (JArr vs) = vs"
| "values_elements v = []"

definition BooleanArrayCodec_getByteLength :: "jsvalue \<Rightarrow> error + nat" where
  "BooleanArrayCodec_getByteLength values =
     (case values_length values of
        Inl e \<Rightarrow> Inl e
      | Inr len \<Rightarrow>
          (let valueBytes = nat (Math_ceil_div (int len) 8)
           in Inr (VariableLengthUnsignedIntegerCodec_getByteLength len
                   + valueBytes * byteLength codecs_uint8)))"

text \<open>
  The body of \<^verbatim>\<open>for (let i = 0; i < length; i++, bit++)\<close>, run over the elements in
  order; the loop state is the cursor, \<open>byte\<close> and \<open>bit\<close>.
\<close>

fun BooleanArrayCodec_set_loop ::
  "jsvalue list \<Rightarrow> StreamView \<Rightarrow> int \<Rightarrow> nat \<Rightarrow> bool \<Rightarrow> error + StreamView \<times> int \<times> nat" where
  "BooleanArrayCodec_set_loop [] sv byte bitno littleEndian = Inr (sv, byte, bitno)"
| "BooleanArrayCodec_set_loop (v # vs) sv byte bitno littleEndian =
     (case (if bitno = 8
            then (case IntegerCodec_set codecs_uint8 sv (JNum byte) littleEndian of
                    Inl e \<Rightarrow> Inl e
                  | Inr sv' \<Rightarrow> Inr (sv', 0, 0))
            else Inr (sv, byte, bitno)) of
        Inl e \<Rightarrow> Inl e
      | Inr (sv', byte', bitno') \<Rightarrow>
          BooleanArrayCodec_set_loop vs sv'
            (js_or byte' (js_shl (if truthy v then 1 else 0) bitno')) (bitno' + 1) littleEndian)"

text \<open>The statement after the loop: \<^verbatim>\<open>if (bit > 0) { _codecs.uint8.set(...) }\<close>.\<close>

definition BooleanArrayCodec_set_flush ::
  "bool \<Rightarrow> error + StreamView \<times> int \<times> nat \<Rightarrow> error + StreamView" where
  "BooleanArrayCodec_set_flush littleEndian r =
     (case r of
        Inl e \<Rightarrow> Inl e
      | Inr (sv2, byte, bitno) \<Rightarrow>
          if bitno > 0 then IntegerCodec_set codecs_uint8 sv2 (JNum byte) littleEndian
          else Inr sv2)"

definition BooleanArrayCodec_set ::
  "StreamView \<Rightarrow> jsvalue \<Rightarrow> bool \<Rightarrow> error + StreamView" where
  "BooleanArrayCodec_set sv values littleEndian =
     (case values_length values of
        Inl e \<Rightarrow> Inl e
      | Inr len \<Rightarrow>
          (case VariableLengthUnsignedIntegerCodec_set sv (JNum (int len)) littleEndian of
             Inl e \<Rightarrow> Inl e
           | Inr sv1 \<Rightarrow>
               BooleanArrayCodec_set_flush littleEndian
                 (BooleanArrayCodec_set_loop (values_elements values) sv1 0 0 littleEndian)))"

text \<open>\<^verbatim>\<open>for (let bit = 0; bit < 8 && i < length; bit++, i++)\<close>\<close>

function BooleanArrayCodec_get_bits ::
  "int \<Rightarrow> nat \<Rightarrow> int \<Rightarrow> int \<Rightarrow> jsvalue list \<Rightarrow> jsvalue list \<times> int" where
  "BooleanArrayCodec_get_bits byte bitno i len values =
     (if bitno < 8 \<and> i < len
      then BooleanArrayCodec_get_bits byte (bitno + 1) (i + 1) len
             (values @ [JBool (if js_and (js_sar byte bitno) 1 \<noteq> 0 then True else False)])
      else (values, i))"
  by pat_completeness auto
termination
  by (relation "measure (\<lambda>(byte, bitno, i, len, values). 8 - bitno)") auto

declare BooleanArrayCodec_get_bits.simps [simp del]

text \<open>
  \<^verbatim>\<open>for (let byteIndex = 0; byteIndex < byteLength; byteIndex++)\<close>, by the number of
  bytes still to read.
\<close>

fun BooleanArrayCodec_get_bytes ::
  "nat \<Rightarrow> StreamView \<Rightarrow> int \<Rightarrow> int \<Rightarrow> jsvalue list \<Rightarrow> bool
   \<Rightarrow> error + jsvalue list \<times> StreamView" where
  "BooleanArrayCodec_get_bytes 0 sv i len values littleEndian = Inr (values, sv)"
| "BooleanArrayCodec_get_bytes (Suc n) sv i len values littleEndian =
     (case FixedLengthCodec_get codecs_uint8 sv littleEndian of
        Inl e \<Rightarrow> Inl e
      | Inr (v, sv') \<Rightarrow>
          (case ToNumber v of
             Inl e \<Rightarrow> Inl e
           | Inr None \<Rightarrow> Inl Unmodelled
           | Inr (Some byte) \<Rightarrow>
               (case BooleanArrayCodec_get_bits byte 0 i len values of
                  (values', i') \<Rightarrow>
                    BooleanArrayCodec_get_bytes n sv' i' len values' littleEndian)))"

definition BooleanArrayCodec_get ::
  "StreamView \<Rightarrow> bool \<Rightarrow> error + jsvalue \<times> StreamView" where
  "BooleanArrayCodec_get sv littleEndian =
     (case VariableLengthUnsignedIntegerCodec_get sv littleEndian of
        Inl e \<Rightarrow> Inl e
      | Inr (len, sv1) \<Rightarrow>
          (let byteLength = nat (Math_ceil_div len 8)
           in case BooleanArrayCodec_get_bytes byteLength sv1 0 len [] littleEndian of
                Inl e \<Rightarrow> Inl e
              | Inr (values, sv2) \<Rightarrow> Inr (JArr values, sv2)))"

text \<open>
  The bit region as the spec words it (4.5): the elements in order, eight to a byte,
  the first of each eight in the least significant bit; \<open>pack_val\<close> is the number a
  group of at most eight elements makes.
\<close>

fun pack_val :: "bool list \<Rightarrow> int" where
  "pack_val [] = 0"
| "pack_val (b # bs) = (if b then 1 else 0) + 2 * pack_val bs"

function pack_bits :: "bool list \<Rightarrow> byte list" where
  "pack_bits bs =
     (if bs = [] then [] else word_of_int (pack_val (take 8 bs)) # pack_bits (drop 8 bs))"
  by pat_completeness auto
termination
  by (relation "measure length") auto

declare pack_bits.simps [simp del]

section \<open>String codec\<close>

text \<open>
  Modelled from the spec: the \<^verbatim>\<open>utf8\<close> package is not under \<^verbatim>\<open>src/\<close>. The spec (4.6) has
  the codec transcode text to UTF-8 bytes and back. A string is its list of Unicode
  scalar values; \<open>utf8_encode\<close> is the standard encoding of each in one to four bytes,
  and \<open>utf8_decode\<close> the decoder that rejects truncated sequences, bad continuation
  bytes, overlong forms and values past \<open>0x10FFFF\<close>.
\<close>

fun utf8_encodeCodePoint :: "nat \<Rightarrow> nat list" where
  "utf8_encodeCodePoint cp =
     (if cp < 0x80 then [cp]
      else if cp < 0x800 then [0xC0 + cp div 64, 0x80 + cp mod 64]
      else if cp < 0x10000 then [0xE0 + cp div 4096, 0x80 + cp div 64 mod 64, 0x80 + cp mod 64]
      else [0xF0 + cp div 262144 mod 8, 0x80 + cp div 4096 mod 64, 0x80 + cp div 64 mod 64,
            0x80 + cp mod 64])"

definition utf8_encode :: "nat list \<Rightarrow> nat list" where
  "utf8_encode s = concat (map utf8_encodeCodePoint s)"

definition is_continuation :: "nat \<Rightarrow> bool" where
  "is_continuation b \<longleftrightarrow> 0x80 \<le> b \<and> b < 0xC0"

fun utf8_decode :: "nat list \<Rightarrow> utf8_error + nat list" where
  "utf8_decode [] = Inr []"
| "utf8_decode (b1 # rest) =
     (if b1 < 0x80 then map_sum id ((#) b1) (utf8_decode rest)
      else if 0xC0 \<le> b1 \<and> b1 < 0xE0 then
        (case rest of
           b2 # rest' \<Rightarrow>
             if is_continuation b2
             then (let cp = (b1 mod 32) * 64 + b2 mod 64
                   in if cp \<ge> 0x80 then map_sum id ((#) cp) (utf8_decode rest')
                      else Inl InvalidContinuationByte)
             else Inl InvalidContinuationByte
         | _ \<Rightarrow> Inl InvalidByteIndex)
      else if 0xE0 \<le> b1 \<and> b1 < 0xF0 then
        (case rest of
           b2 # b3 # rest' \<Rightarrow>
             if is_continuation b2 \<and> is_continuation b3
             then (let cp = (b1 mod 16) * 4096 + (b2 mod 64) * 64 + b3 mod 64
                   in if cp \<ge> 0x800 then map_sum id ((#) cp) (utf8_decode rest')
                      else Inl InvalidContinuationByte)
             else Inl InvalidContinuationByte
         | _ \<Rightarrow> Inl InvalidByteIndex)
      else if 0xF0 \<le> b1 \<and> b1 < 0xF8 then
        (case rest of
           b2 # b3 # b4 # rest' \<Rightarrow>
             if is_continuation b2 \<and> is_continuation b3 \<and> is_continuation b4
             then (let cp = (b1 mod 8) * 262144 + (b2 mod 64) * 4096 + (b3 mod 64) * 64 + b4 mod 64
                   in if cp \<ge> 0x10000 \<and> cp \<le> 0x10FFFF
                      then map_sum id ((#) cp) (utf8_decode rest')
                      else Inl InvalidUTF8)
             else Inl InvalidContinuationByte
         | _ \<Rightarrow> Inl InvalidByteIndex)
      else Inl InvalidUTF8)"

definition StringCodec_getByteLength :: "jsvalue \<Rightarrow> error + nat" where
  "StringCodec_getByteLength v =
     (if truthy v
      then (case v of
              JStr s \<Rightarrow>
                (let utf8String = utf8_encode s
                 in Inr (VariableLengthUnsignedIntegerCodec_getByteLength (length utf8String)
                         + byteLength codecs_uint8 * length utf8String))
            | _ \<Rightarrow> Inl Unmodelled)
      else Inr (VariableLengthUnsignedIntegerCodec_getByteLength 0))"

text \<open>\<^verbatim>\<open>for (let i = 0; i < utf8String.length; i++)\<close>, over the bytes in order.\<close>

fun StringCodec_set_loop :: "nat list \<Rightarrow> StreamView \<Rightarrow> bool \<Rightarrow> error + StreamView" where
  "StringCodec_set_loop [] sv littleEndian = Inr sv"
| "StringCodec_set_loop (c # cs) sv littleEndian =
     (case IntegerCodec_set codecs_uint8 sv (JNum (int c)) littleEndian of
        Inl e \<Rightarrow> Inl e
      | Inr sv' \<Rightarrow> StringCodec_set_loop cs sv' littleEndian)"

definition StringCodec_set :: "StreamView \<Rightarrow> jsvalue \<Rightarrow> bool \<Rightarrow> error + StreamView" where
  "StringCodec_set sv v littleEndian =
     (if truthy v
      then (case v of
              JStr s \<Rightarrow>
                (let utf8String = utf8_encode s
                 in case VariableLengthUnsignedIntegerCodec_set sv
                           (JNum (int (length utf8String))) littleEndian of
                      Inl e \<Rightarrow> Inl e
                    | Inr sv1 \<Rightarrow> StringCodec_set_loop utf8String sv1 littleEndian)
            | _ \<Rightarrow> Inl Unmodelled)
      else VariableLengthUnsignedIntegerCodec_set sv (JNum 0) littleEndian)"

text \<open>\<^verbatim>\<open>for (let i = 0; i < length; i++)\<close>, by the number of bytes still to read.\<close>

fun StringCodec_get_loop ::
  "nat \<Rightarrow> nat list \<Rightarrow> StreamView \<Rightarrow> bool \<Rightarrow> error + nat list \<times> StreamView" where
  "StringCodec_get_loop 0 string sv littleEndian = Inr (string, sv)"
| "StringCodec_get_loop (Suc n) string sv littleEndian =
     (case FixedLengthCodec_get codecs_uint8 sv littleEndian of
        Inl e \<Rightarrow> Inl e
      | Inr (v, sv') \<Rightarrow>
          (case ToNumber v of
             Inl e \<Rightarrow> Inl e
           | Inr None \<Rightarrow> Inl Unmodelled
           | Inr (Some c) \<Rightarrow> StringCodec_get_loop n (string @ [nat c]) sv' littleEndian))"

definition StringCodec_get :: "StreamView \<Rightarrow> bool \<Rightarrow> error + jsvalue \<times> StreamView" where
  "StringCodec_get sv littleEndian =
     (case VariableLengthUnsignedIntegerCodec_get sv littleEndian of
        Inl e \<Rightarrow> Inl e
      | Inr (len, sv1) \<Rightarrow>
          if len > 0
          then (case StringCodec_get_loop (nat len) [] sv1 littleEndian of
                  Inl e \<Rightarrow> Inl e
                | Inr (string, sv2) \<Rightarrow>
                    (case utf8_decode string of
                       Inl e \<Rightarrow> Inl (Utf8Error e)
                     | Inr s \<Rightarrow> Inr (JStr s, sv2)))
          else Inr (JStr [], sv1))"

section \<open>Codec instances and the array codec\<close>

text \<open>
  The codec classes as one datatype; a fixed-length instance carries its record. The
  float codecs are here for their names and lengths only (see \<open>DataView_get\<close>).
  \<open>CInherited\<close> is no codec: it is the member of \<^verbatim>\<open>Object.prototype\<close> that
  \<^verbatim>\<open>_codecs[name]\<close> finds under one of the names of \<open>Object_prototype_keys\<close>. It has no
  \<^verbatim>\<open>fixedByteLength\<close> or \<^verbatim>\<open>byteLength\<close>, and a call of \<^verbatim>\<open>getByteLength\<close>, \<^verbatim>\<open>get\<close> or
  \<^verbatim>\<open>set\<close> on it is a \<^verbatim>\<open>TypeError\<close>.
\<close>

datatype codec =
    CBoolean FixedLengthCodec
  | CFloat FixedLengthCodec
  | CInteger IntegerCodec
  | CString
  | CBooleanArray
  | CVariableLength
  | CArray codec
  | CInherited string

definition FloatCodec_new :: "nat \<Rightarrow> error + FixedLengthCodec" where
  "FloatCodec_new bl =
     (if bl = 4 then FixedLengthCodec_new bl (FloatN 32) (FloatN 32)
      else if bl = 8 then FixedLengthCodec_new bl (FloatN 64) (FloatN 64)
      else Inl FloatByteLength)"

definition codecs_float32 :: FixedLengthCodec where
  "codecs_float32 = \<lparr>byteLength = 4, getter = FloatN 32, setter = FloatN 32\<rparr>"

definition codecs_float64 :: FixedLengthCodec where
  "codecs_float64 = \<lparr>byteLength = 8, getter = FloatN 64, setter = FloatN 64\<rparr>"

text \<open>\<^verbatim>\<open>_codecs\<close>, the shared instances by name, and the keys of \<^verbatim>\<open>_codecTypes\<close>.\<close>

definition codecs :: "(string \<times> codec) list" where
  "codecs =
     [(''boolean'', CBoolean codecs_boolean),
      (''booleanArray'', CBooleanArray),
      (''float32'', CFloat codecs_float32),
      (''float64'', CFloat codecs_float64),
      (''int8'', CInteger codecs_int8),
      (''int16'', CInteger codecs_int16),
      (''int32'', CInteger codecs_int32),
      (''string'', CString),
      (''uint8'', CInteger codecs_uint8),
      (''uint16'', CInteger codecs_uint16),
      (''uint32'', CInteger codecs_uint32),
      (''variableLength'', CVariableLength)]"

definition codecTypes :: "string list" where
  "codecTypes = [''array'', ''boolean'', ''booleanArray'', ''float'', ''int'', ''object'',
                 ''string'', ''variableLength'']"

text \<open>
  \<^verbatim>\<open>_codecs[name]\<close> for any name: \<^verbatim>\<open>_codecs\<close> is a plain object, so a name it lacks
  is looked up in \<^verbatim>\<open>Object.prototype\<close>; \<open>None\<close> is \<^verbatim>\<open>undefined\<close>.
\<close>

definition codecs_get :: "string \<Rightarrow> codec option" where
  "codecs_get name =
     (case map_of codecs name of
        Some c \<Rightarrow> Some c
      | None \<Rightarrow> if name \<in> set Object_prototype_keys then Some (CInherited name) else None)"

text \<open>
  \<^verbatim>\<open>isValidType\<close> asks \<^verbatim>\<open>hasOwnProperty\<close>, which does not follow the prototype chain. A
  name that is \<^verbatim>\<open>undefined\<close> is \<open>None\<close>; it is an own property of neither table.
\<close>

definition isValidType :: "string option \<Rightarrow> bool" where
  "isValidType t =
     (case t of
        None \<Rightarrow> False
      | Some name \<Rightarrow> name \<in> set codecTypes \<or> map_of codecs name \<noteq> None)"

text \<open>\<^verbatim>\<open>fixedByteLength\<close> is set by the \<^verbatim>\<open>FixedLengthCodec\<close> constructor only.\<close>

fun fixedByteLength :: "codec \<Rightarrow> bool" where
  "fixedByteLength (CBoolean c) = True"
| "fixedByteLength (CFloat c) = True"
| "fixedByteLength (CInteger c) = True"
| "fixedByteLength c = False"

definition FixedLengthCodec_getByteLength :: "'a FixedLengthCodec_scheme \<Rightarrow> jsvalue \<Rightarrow> nat" where
  "FixedLengthCodec_getByteLength c v = byteLength c"

text \<open>
  The three loops of the array codec, over any element operation: the sum of the
  element lengths, the element writes in order, and \<open>n\<close> element reads.
\<close>

fun ArrayCodec_getByteLength_loop ::
  "(jsvalue \<Rightarrow> error + nat) \<Rightarrow> jsvalue list \<Rightarrow> nat \<Rightarrow> error + nat" where
  "ArrayCodec_getByteLength_loop f [] valueByteLength = Inr valueByteLength"
| "ArrayCodec_getByteLength_loop f (v # vs) valueByteLength =
     (case f v of
        Inl e \<Rightarrow> Inl e
      | Inr b \<Rightarrow> ArrayCodec_getByteLength_loop f vs (valueByteLength + b))"

fun ArrayCodec_set_loop ::
  "(StreamView \<Rightarrow> jsvalue \<Rightarrow> error + StreamView) \<Rightarrow> jsvalue list \<Rightarrow> StreamView
   \<Rightarrow> error + StreamView" where
  "ArrayCodec_set_loop f [] sv = Inr sv"
| "ArrayCodec_set_loop f (v # vs) sv =
     (case f sv v of Inl e \<Rightarrow> Inl e | Inr sv' \<Rightarrow> ArrayCodec_set_loop f vs sv')"

fun ArrayCodec_get_loop ::
  "(StreamView \<Rightarrow> error + jsvalue \<times> StreamView) \<Rightarrow> nat \<Rightarrow> jsvalue list \<Rightarrow> StreamView
   \<Rightarrow> error + jsvalue list \<times> StreamView" where
  "ArrayCodec_get_loop f 0 vs sv = Inr (vs, sv)"
| "ArrayCodec_get_loop f (Suc n) vs sv =
     (case f sv of
        Inl e \<Rightarrow> Inl e
      | Inr (v, sv') \<Rightarrow> ArrayCodec_get_loop f n (vs @ [v]) sv')"

lemma ArrayCodec_getByteLength_loop_cong [fundef_cong]:
  "vs = vs' \<Longrightarrow> n = n' \<Longrightarrow> (\<And>v. v \<in> set vs' \<Longrightarrow> f v = g v)
   \<Longrightarrow> ArrayCodec_getByteLength_loop f vs n = ArrayCodec_getByteLength_loop g vs' n'"
  by (induction vs' arbitrary: vs n n') (auto split: sum.splits)

lemma ArrayCodec_set_loop_cong [fundef_cong]:
  "vs = vs' \<Longrightarrow> sv = sv' \<Longrightarrow> (\<And>s v. v \<in> set vs' \<Longrightarrow> f s v = g s v)
   \<Longrightarrow> ArrayCodec_set_loop f vs sv = ArrayCodec_set_loop g vs' sv'"
  by (induction vs' arbitrary: vs sv sv') (auto split: sum.splits)

lemma ArrayCodec_get_loop_cong [fundef_cong]:
  "n = n' \<Longrightarrow> vs = vs' \<Longrightarrow> sv = sv' \<Longrightarrow> (\<And>s. f s = g s)
   \<Longrightarrow> ArrayCodec_get_loop f n vs sv = ArrayCodec_get_loop g n' vs' sv'"
  by (induction n' arbitrary: n vs vs' sv sv') (auto split: sum.splits prod.splits)

text \<open>
  \<^verbatim>\<open>getByteLength\<close>, by class. A variable-length field whose value is not a non-negative
  number has the length NaN, which is not followed.
\<close>

fun codec_getByteLength :: "codec \<Rightarrow> jsvalue \<Rightarrow> error + nat" where
  "codec_getByteLength (CBoolean c) v = Inr (FixedLengthCodec_getByteLength c v)"
| "codec_getByteLength (CFloat c) v = Inr (FixedLengthCodec_getByteLength c v)"
| "codec_getByteLength (CInteger c) v = Inr (FixedLengthCodec_getByteLength c v)"
| "codec_getByteLength CString v = StringCodec_getByteLength v"
| "codec_getByteLength CBooleanArray v = BooleanArrayCodec_getByteLength v"
| "codec_getByteLength CVariableLength v =
     (case ToNumber v of
        Inl e \<Rightarrow> Inl e
      | Inr None \<Rightarrow> Inl Unmodelled
      | Inr (Some n) \<Rightarrow>
          if n < 0 then Inl Unmodelled
          else Inr (VariableLengthUnsignedIntegerCodec_getByteLength (nat n)))"
| "codec_getByteLength (CArray valueCodec) values =
     (case values_length values of
        Inl e \<Rightarrow> Inl e
      | Inr len \<Rightarrow>
          (case (if fixedByteLength valueCodec
                 then (case codec_getByteLength valueCodec JUndefined of
                         Inl e \<Rightarrow> Inl e
                       | Inr b \<Rightarrow> Inr (len * b))
                 else ArrayCodec_getByteLength_loop (codec_getByteLength valueCodec)
                        (values_elements values) 0) of
             Inl e \<Rightarrow> Inl e
           | Inr valueByteLength \<Rightarrow>
               Inr (VariableLengthUnsignedIntegerCodec_getByteLength len + valueByteLength)))"
| "codec_getByteLength (CInherited name) v = Inl TypeError"

fun codec_set :: "codec \<Rightarrow> StreamView \<Rightarrow> jsvalue \<Rightarrow> bool \<Rightarrow> error + StreamView" where
  "codec_set (CBoolean c) sv v littleEndian = BooleanCodec_set c sv v littleEndian"
| "codec_set (CFloat c) sv v littleEndian = FixedLengthCodec_set c sv v littleEndian"
| "codec_set (CInteger c) sv v littleEndian = IntegerCodec_set c sv v littleEndian"
| "codec_set CString sv v littleEndian = StringCodec_set sv v littleEndian"
| "codec_set CBooleanArray sv v littleEndian = BooleanArrayCodec_set sv v littleEndian"
| "codec_set CVariableLength sv v littleEndian =
     VariableLengthUnsignedIntegerCodec_set sv v littleEndian"
| "codec_set (CArray valueCodec) sv values littleEndian =
     (case values_length values of
        Inl e \<Rightarrow> Inl e
      | Inr len \<Rightarrow>
          (case VariableLengthUnsignedIntegerCodec_set sv (JNum (int len)) littleEndian of
             Inl e \<Rightarrow> Inl e
           | Inr sv1 \<Rightarrow>
               if len > 0
               then ArrayCodec_set_loop (\<lambda>s v. codec_set valueCodec s v littleEndian)
                      (values_elements values) sv1
               else Inr sv1))"
| "codec_set (CInherited name) sv v littleEndian = Inl TypeError"

fun codec_get :: "codec \<Rightarrow> StreamView \<Rightarrow> bool \<Rightarrow> error + jsvalue \<times> StreamView" where
  "codec_get (CBoolean c) sv littleEndian = BooleanCodec_get c sv littleEndian"
| "codec_get (CFloat c) sv littleEndian = FixedLengthCodec_get c sv littleEndian"
| "codec_get (CInteger c) sv littleEndian = FixedLengthCodec_get c sv littleEndian"
| "codec_get CString sv littleEndian = StringCodec_get sv littleEndian"
| "codec_get CBooleanArray sv littleEndian = BooleanArrayCodec_get sv littleEndian"
| "codec_get CVariableLength sv littleEndian =
     (case VariableLengthUnsignedIntegerCodec_get sv littleEndian of
        Inl e \<Rightarrow> Inl e
      | Inr (len, sv') \<Rightarrow> Inr (JNum len, sv'))"
| "codec_get (CArray valueCodec) sv littleEndian =
     (case VariableLengthUnsignedIntegerCodec_get sv littleEndian of
        Inl e \<Rightarrow> Inl e
      | Inr (len, sv1) \<Rightarrow>
          if len > 0
          then (case ArrayCodec_get_loop (\<lambda>s. codec_get valueCodec s littleEndian)
                       (nat len) [] sv1 of
                  Inl e \<Rightarrow> Inl e
                | Inr (values, sv2) \<Rightarrow> Inr (JArr values, sv2))
          else Inr (JArr [], sv1))"
| "codec_get (CInherited name) sv littleEndian = Inl TypeError"

text \<open>
  \<^verbatim>\<open>new ArrayCodec(valueCodec)\<close> with the name of a codec, or with \<^verbatim>\<open>undefined\<close>
  (\<open>None\<close>). The constructor throws only when \<^verbatim>\<open>_codecs[valueCodec]\<close> is falsy, so a name
  of \<open>Object_prototype_keys\<close> is accepted.
\<close>

definition ArrayCodec_new :: "string option \<Rightarrow> error + codec" where
  "ArrayCodec_new valueCodec =
     (case (case valueCodec of None \<Rightarrow> None | Some name \<Rightarrow> codecs_get name) of
        None \<Rightarrow> Inl (InvalidArrayValueType valueCodec)
      | Some c \<Rightarrow> Inr (CArray c))"

section \<open>Wire strings\<close>

text \<open>
  The encoded message is a string with one character per byte, modelled as the list
  of its character codes. \<^verbatim>\<open>createFromString\<close> stores each code through the unsigned
  8-bit codec, which clamps a code above 255.
\<close>

definition StreamView_toString :: "StreamView \<Rightarrow> nat list" where
  "StreamView_toString sv = map unat (dataView sv)"

fun StreamView_createFromString_loop :: "nat list \<Rightarrow> StreamView \<Rightarrow> error + StreamView" where
  "StreamView_createFromString_loop [] sv = Inr sv"
| "StreamView_createFromString_loop (c # cs) sv =
     (case IntegerCodec_set codecs_uint8 sv (JNum (int c)) False of
        Inl e \<Rightarrow> Inl e
      | Inr sv' \<Rightarrow> StreamView_createFromString_loop cs sv')"

definition StreamView_createFromString :: "nat list \<Rightarrow> error + StreamView" where
  "StreamView_createFromString string =
     (case StreamView_createFromString_loop string (StreamView_create (length string)) of
        Inl e \<Rightarrow> Inl e
      | Inr sv \<Rightarrow> Inr (sv\<lparr>byteOffset := 0\<rparr>))"

section \<open>Fields and the object codec\<close>

text \<open>
  The options a field is built from; an absent option is \<open>None\<close>. In a \<open>Field\<close> the
  codec is \<open>None\<close> when \<^verbatim>\<open>_codecs[this.type]\<close> is \<^verbatim>\<open>undefined\<close>. The type has passed
  \<^verbatim>\<open>isValidType\<close> by then, so it is an own property of one of the two tables and no name
  of \<open>Object_prototype_keys\<close>: the lookup is that of the table itself.
\<close>

record field_options =
  opt_key :: "string option"
  opt_type :: "string option"
  opt_valueType :: "string option"

record Field =
  key :: string
  type :: string
  valueType :: "string option"
  codec :: "codec option"

definition Field_new :: "field_options \<Rightarrow> error + Field" where
  "Field_new opts =
     (case opt_key opts of
        None \<Rightarrow> Inl KeyRequired
      | Some k \<Rightarrow>
          if k = [] then Inl KeyRequired
          else if \<not> isValidType (opt_type opts) then Inl (InvalidType (opt_type opts))
          else if opt_type opts = Some ''array''
          then (if opt_valueType opts = Some ''array'' \<or> opt_valueType opts = Some ''string''
                   \<or> \<not> isValidType (opt_valueType opts)
                then Inl (InvalidArrayValueType (opt_valueType opts))
                else (case ArrayCodec_new (opt_valueType opts) of
                        Inl e \<Rightarrow> Inl e
                      | Inr c \<Rightarrow>
                          Inr \<lparr>key = k, type = the (opt_type opts),
                               valueType = opt_valueType opts, codec = Some c\<rparr>))
          else Inr \<lparr>key = k, type = the (opt_type opts), valueType = opt_valueType opts,
                    codec = map_of codecs (the (opt_type opts))\<rparr>)"

text \<open>\<^verbatim>\<open>fields.map((options) => new Field(options))\<close>: the first failure is thrown.\<close>

fun Field_new_all :: "field_options list \<Rightarrow> error + Field list" where
  "Field_new_all [] = Inr []"
| "Field_new_all (opts # rest) =
     (case Field_new opts of
        Inl e \<Rightarrow> Inl e
      | Inr f \<Rightarrow> (case Field_new_all rest of Inl e \<Rightarrow> Inl e | Inr fs \<Rightarrow> Inr (f # fs)))"

text \<open>
  \<^verbatim>\<open>object[key]\<close>: an own property first, then the prototype chain, and \<^verbatim>\<open>undefined\<close>
  for a key that neither has; a \<^verbatim>\<open>TypeError\<close> when the object itself is \<^verbatim>\<open>undefined\<close>.
  A boolean and a number are read through \<^verbatim>\<open>Boolean.prototype\<close> and
  \<^verbatim>\<open>Number.prototype\<close>, whose chains end in \<^verbatim>\<open>Object.prototype\<close>.
\<close>

fun object_get :: "jsvalue \<Rightarrow> string \<Rightarrow> error + jsvalue" where
  "object_get (JObj kvs) k =
     Inr (case map_of kvs k of
            Some v \<Rightarrow> v
          | None \<Rightarrow> if k \<in> set Object_prototype_keys then JInherited k else JUndefined)"
| "object_get JUndefined k = Inl TypeError"
| "object_get (JBool b) k =
     Inr (if k \<in> set Object_prototype_keys then JInherited k else JUndefined)"
| "object_get (JNum n) k =
     Inr (if k \<in> set (Number_prototype_keys @ Object_prototype_keys) then JInherited k
          else JUndefined)"
| "object_get (JStr s) k = Inl Unmodelled"
| "object_get (JArr vs) k = Inl Unmodelled"
| "object_get (JInherited n) k = Inl Unmodelled"

text \<open>
  \<^verbatim>\<open>object[key] = value\<close> on an object that started as \<^verbatim>\<open>{}\<close>: it replaces an own
  property or appends one. Under the key \<^verbatim>\<open>__proto__\<close>, without an own property of that
  name, the assignment goes to the accessor of \<^verbatim>\<open>Object.prototype\<close> instead, which
  ignores a value that is not an object and otherwise replaces the prototype; an object
  with another prototype is not followed.
\<close>

definition object_put ::
  "(string \<times> jsvalue) list \<Rightarrow> string \<Rightarrow> jsvalue \<Rightarrow> error + (string \<times> jsvalue) list" where
  "object_put kvs k v =
     (if map_of kvs k \<noteq> None
      then Inr (map (\<lambda>(k', v'). if k' = k then (k', v) else (k', v')) kvs)
      else if k = ''__proto__''
      then (case v of
              JUndefined \<Rightarrow> Inr kvs
            | JBool b \<Rightarrow> Inr kvs
            | JNum n \<Rightarrow> Inr kvs
            | JStr s \<Rightarrow> Inr kvs
            | _ \<Rightarrow> Inl Unmodelled)
      else Inr (kvs @ [(k, v)]))"

record ObjectCodec =
  oc_fields :: "Field list"
  oc_byteLength :: "nat option"

definition ObjectCodec_new :: "field_options list \<Rightarrow> error + ObjectCodec" where
  "ObjectCodec_new fieldOptions =
     (case Field_new_all fieldOptions of
        Inl e \<Rightarrow> Inl e
      | Inr fs \<Rightarrow> Inr \<lparr>oc_fields = fs, oc_byteLength = None\<rparr>)"

text \<open>
  The loop of \<^verbatim>\<open>getByteLength\<close>; its state is \<open>(byteLength, fixedByteLength)\<close>. A call
  on a codec that is \<^verbatim>\<open>undefined\<close> is a \<^verbatim>\<open>TypeError\<close>.
\<close>

fun ObjectCodec_getByteLength_loop ::
  "Field list \<Rightarrow> jsvalue \<Rightarrow> nat \<Rightarrow> bool \<Rightarrow> error + nat \<times> bool" where
  "ObjectCodec_getByteLength_loop [] object bl fixed = Inr (bl, fixed)"
| "ObjectCodec_getByteLength_loop (f # fs) object bl fixed =
     (case codec f of
        None \<Rightarrow> Inl TypeError
      | Some c \<Rightarrow>
          (case object_get object (key f) of
             Inl e \<Rightarrow> Inl e
           | Inr v \<Rightarrow>
               (case codec_getByteLength c v of
                  Inl e \<Rightarrow> Inl e
                | Inr b \<Rightarrow>
                    ObjectCodec_getByteLength_loop fs object (bl + b)
                      (fixed \<and> fixedByteLength c))))"

text \<open>
  \<^verbatim>\<open>getByteLength\<close> returns the length and leaves the cache in the codec; an exception
  leaves the codec as it was.
\<close>

definition ObjectCodec_getByteLength ::
  "ObjectCodec \<Rightarrow> jsvalue \<Rightarrow> (error + nat) \<times> ObjectCodec" where
  "ObjectCodec_getByteLength oc object =
     (case oc_byteLength oc of
        Some bl \<Rightarrow> (Inr bl, oc)
      | None \<Rightarrow>
          (case ObjectCodec_getByteLength_loop (oc_fields oc) object 0 True of
             Inl e \<Rightarrow> (Inl e, oc)
           | Inr (bl, fixed) \<Rightarrow>
               (Inr bl, if fixed then oc\<lparr>oc_byteLength := Some bl\<rparr> else oc)))"

text \<open>
  \<^verbatim>\<open>this.littleEndian\<close> of an object codec is never assigned, so every field is read and
  written with the flag \<^verbatim>\<open>undefined\<close>: big-endian.
\<close>

fun ObjectCodec_get_loop ::
  "Field list \<Rightarrow> (string \<times> jsvalue) list \<Rightarrow> StreamView
   \<Rightarrow> error + (string \<times> jsvalue) list \<times> StreamView" where
  "ObjectCodec_get_loop [] object sv = Inr (object, sv)"
| "ObjectCodec_get_loop (f # fs) object sv =
     (case codec f of
        None \<Rightarrow> Inl TypeError
      | Some c \<Rightarrow>
          (case codec_get c sv False of
             Inl e \<Rightarrow> Inl e
           | Inr (v, sv') \<Rightarrow>
               (case object_put object (key f) v of
                  Inl e \<Rightarrow> Inl e
                | Inr object' \<Rightarrow> ObjectCodec_get_loop fs object' sv')))"

definition ObjectCodec_get :: "ObjectCodec \<Rightarrow> StreamView \<Rightarrow> error + jsvalue \<times> StreamView" where
  "ObjectCodec_get oc sv =
     (case ObjectCodec_get_loop (oc_fields oc) [] sv of
        Inl e \<Rightarrow> Inl e
      | Inr (object, sv') \<Rightarrow> Inr (JObj object, sv'))"

fun ObjectCodec_set_loop :: "Field list \<Rightarrow> StreamView \<Rightarrow> jsvalue \<Rightarrow> error + StreamView" where
  "ObjectCodec_set_loop [] sv object = Inr sv"
| "ObjectCodec_set_loop (f # fs) sv object =
     (case codec f of
        None \<Rightarrow> Inl TypeError
      | Some c \<Rightarrow>
          (case object_get object (key f) of
             Inl e \<Rightarrow> Inl e
           | Inr v \<Rightarrow>
               (case codec_set c sv v False of
                  Inl e \<Rightarrow> Inl e
                | Inr sv' \<Rightarrow> ObjectCodec_set_loop fs sv' object)))"

definition ObjectCodec_set :: "ObjectCodec \<Rightarrow> StreamView \<Rightarrow> jsvalue \<Rightarrow> error + StreamView" where
  "ObjectCodec_set oc sv object = ObjectCodec_set_loop (oc_fields oc) sv object"

section \<open>Definitions and schemas\<close>

text \<open>
  What a definition holds as its codec: one of the codecs above, an object codec, or,
  since the constructor takes any value that is not a string as the codec itself, a
  value that is no codec at all (\<open>NotACodec\<close>); a method call on that is a \<^verbatim>\<open>TypeError\<close>.
\<close>

datatype definition_codec = Shared codec | Object ObjectCodec | NotACodec

datatype codec_param = TypeName string | CodecValue definition_codec

text \<open>
  The first of the \<^verbatim>\<open>codecArgs\<close>, as the constructors of \<^verbatim>\<open>_codecTypes\<close> take it: the
  name or the instance of an array's value codec, the field list of an object codec,
  the options of a float or an integer codec.
\<close>

datatype codec_arg =
    ArgName string
  | ArgCodec codec
  | ArgFields "field_options list"
  | ArgFloat nat
  | ArgInt nat bool

text \<open>
  \<^verbatim>\<open>new _codecTypes[codec](...codecArgs)\<close>, reached for the names of \<^verbatim>\<open>_codecTypes\<close> that
  \<^verbatim>\<open>_codecs\<close> lacks.
\<close>

definition codecTypes_new :: "string \<Rightarrow> codec_arg list \<Rightarrow> error + definition_codec" where
  "codecTypes_new name args =
     (if name = ''array'' then
        (case args of
           [] \<Rightarrow> Inl (InvalidArrayValueType None)
         | ArgName n # _ \<Rightarrow> map_sum id Shared (ArrayCodec_new (Some n))
         | ArgCodec c # _ \<Rightarrow> Inr (Shared (CArray c))
         | _ \<Rightarrow> Inl Unmodelled)
      else if name = ''object'' then
        (case args of
           ArgFields fs # _ \<Rightarrow> map_sum id Object (ObjectCodec_new fs)
         | _ \<Rightarrow> Inl TypeError)
      else if name = ''float'' then
        (case args of
           [] \<Rightarrow> Inl TypeError
         | ArgFloat bl # _ \<Rightarrow> map_sum id (\<lambda>c. Shared (CFloat c)) (FloatCodec_new bl)
         | _ \<Rightarrow> Inl FloatByteLength)
      else if name = ''int'' then
        (case args of
           [] \<Rightarrow> Inl TypeError
         | ArgInt bl sg # _ \<Rightarrow> map_sum id (\<lambda>c. Shared (CInteger c)) (IntegerCodec_new bl sg)
         | _ \<Rightarrow> Inl NotADataViewMethod)
      else Inl Unmodelled)"

text \<open>
  The constructor of a definition. A codec name has passed \<^verbatim>\<open>isValidType\<close> before
  \<^verbatim>\<open>_codecs[codec] || new _codecTypes[codec](...codecArgs)\<close> is evaluated, so both
  lookups are of own properties.
\<close>

record Definition =
  def_codec :: definition_codec
  def_id :: "nat option"
  def_key :: "string option"

definition Definition_new ::
  "codec_param \<Rightarrow> nat option \<Rightarrow> string option \<Rightarrow> codec_arg list \<Rightarrow> error + Definition" where
  "Definition_new param id' key' codecArgs =
     (case (case param of
              TypeName name \<Rightarrow>
                if \<not> isValidType (Some name) then Inl (InvalidDefinitionType name)
                else (case map_of codecs name of
                        Some c \<Rightarrow> Inr (Shared c)
                      | None \<Rightarrow> codecTypes_new name codecArgs)
            | CodecValue dc \<Rightarrow> Inr dc) of
        Inl e \<Rightarrow> Inl e
      | Inr dc \<Rightarrow> Inr \<lparr>def_codec = dc, def_id = id', def_key = key'\<rparr>)"

fun dc_getByteLength ::
  "definition_codec \<Rightarrow> jsvalue \<Rightarrow> (error + nat) \<times> definition_codec" where
  "dc_getByteLength (Shared c) v = (codec_getByteLength c v, Shared c)"
| "dc_getByteLength (Object oc) v =
     (case ObjectCodec_getByteLength oc v of (r, oc') \<Rightarrow> (r, Object oc'))"
| "dc_getByteLength NotACodec v = (Inl TypeError, NotACodec)"

text \<open>
  \<^verbatim>\<open>this.codec.get(streamView)\<close> and \<^verbatim>\<open>this.codec.set(streamView, object)\<close> pass no
  byte-order flag.
\<close>

fun dc_get :: "definition_codec \<Rightarrow> StreamView \<Rightarrow> error + jsvalue \<times> StreamView" where
  "dc_get (Shared c) sv = codec_get c sv False"
| "dc_get (Object oc) sv = ObjectCodec_get oc sv"
| "dc_get NotACodec sv = Inl TypeError"

fun dc_set :: "definition_codec \<Rightarrow> StreamView \<Rightarrow> jsvalue \<Rightarrow> error + StreamView" where
  "dc_set (Shared c) sv v = codec_set c sv v False"
| "dc_set (Object oc) sv v = ObjectCodec_set oc sv v"
| "dc_set NotACodec sv v = Inl TypeError"

definition Definition_parse :: "Definition \<Rightarrow> nat list \<Rightarrow> error + jsvalue" where
  "Definition_parse d string =
     (case StreamView_createFromString string of
        Inl e \<Rightarrow> Inl e
      | Inr sv \<Rightarrow> map_sum id fst (dc_get (def_codec d) sv))"

text \<open>
  \<^verbatim>\<open>stringify\<close> returns the string, or the exception, and the definition with whatever
  \<^verbatim>\<open>getByteLength\<close> cached in its codec.
\<close>

definition Definition_stringify :: "Definition \<Rightarrow> jsvalue \<Rightarrow> (error + nat list) \<times> Definition" where
  "Definition_stringify d object =
     (case dc_getByteLength (def_codec d) object of
        (Inl e, dc') \<Rightarrow> (Inl e, d\<lparr>def_codec := dc'\<rparr>)
      | (Inr n, dc') \<Rightarrow>
          (case dc_set dc' (StreamView_create n) object of
             Inl e \<Rightarrow> (Inl e, d\<lparr>def_codec := dc'\<rparr>)
           | Inr sv \<Rightarrow> (Inr (StreamView_toString sv), d\<lparr>def_codec := dc'\<rparr>)))"

text \<open>
  A schema keeps its definitions in two plain objects. \<open>definitions\<close> and
  \<open>definitionsById\<close> are their own properties. The ids are numbers, and
  \<^verbatim>\<open>Object.prototype\<close> has no property with a numeral for its name, so
  \<^verbatim>\<open>this.definitionsById[id]\<close> is a lookup of own properties.

  \<^verbatim>\<open>this.definitions[key] = definition\<close> adds or replaces an own property, except under
  the key \<^verbatim>\<open>__proto__\<close>: without an own property of that name the assignment goes to
  the accessor of \<^verbatim>\<open>Object.prototype\<close>, which makes the definition the prototype of
  \<^verbatim>\<open>this.definitions\<close>. \<open>definitionsProto\<close> is that definition, and \<open>None\<close> as long as the
  prototype is \<^verbatim>\<open>Object.prototype\<close> itself.

  \<^verbatim>\<open>this.definitions[key]\<close> follows the prototype chain. For a key that is no own
  property it finds what \<^verbatim>\<open>Object.prototype\<close> has under that key (\<open>FoundInherited\<close>),
  and \<^verbatim>\<open>undefined\<close> (\<open>NotFound\<close>) only when that has nothing either. Once a definition
  is the prototype, \<^verbatim>\<open>__proto__\<close> yields that definition; what the other keys then find
  in the chain is not followed (\<open>NotFollowed\<close>).
\<close>

datatype 'a lookup = Found 'a | FoundInherited | NotFound | NotFollowed

definition definitions_get :: "(string \<rightharpoonup> 'a) \<Rightarrow> 'a option \<Rightarrow> string \<Rightarrow> 'a lookup" where
  "definitions_get defs proto key' =
     (case defs key' of
        Some d \<Rightarrow> Found d
      | None \<Rightarrow>
          (case proto of
             None \<Rightarrow> if key' \<in> set Object_prototype_keys then FoundInherited else NotFound
           | Some p \<Rightarrow> if key' = ''__proto__'' then Found p else NotFollowed))"

definition definitions_set ::
  "(string \<rightharpoonup> 'a) \<Rightarrow> 'a option \<Rightarrow> string \<Rightarrow> 'a \<Rightarrow> (string \<rightharpoonup> 'a) \<times> 'a option" where
  "definitions_set defs proto key' d =
     (if key' = ''__proto__'' \<and> defs key' = None then (defs, Some d)
      else (defs(key' \<mapsto> d), proto))"

record Schema =
  definitions :: "string \<rightharpoonup> Definition"
  definitionsProto :: "Definition option"
  definitionsById :: "nat \<rightharpoonup> Definition"
  idType :: string
  nextDefinitionId :: nat

definition Schema_new :: "string option \<Rightarrow> Schema" where
  "Schema_new idType' =
     \<lparr>definitions = Map.empty, definitionsProto = None, definitionsById = Map.empty,
      idType = (case idType' of None \<Rightarrow> ''uint8'' | Some t \<Rightarrow> if t = [] then ''uint8'' else t),
      nextDefinitionId = 1\<rparr>"

definition createSchema :: Schema where
  "createSchema = Schema_new None"

text \<open>
  \<^verbatim>\<open>define\<close> takes the next id before it builds the definition, so a failed
  construction still uses the id up.
\<close>

definition Schema_define ::
  "Schema \<Rightarrow> string \<Rightarrow> codec_param \<Rightarrow> codec_arg list \<Rightarrow> (error + Definition) \<times> Schema" where
  "Schema_define s key' param args =
     (let id' = nextDefinitionId s;
          s1 = s\<lparr>nextDefinitionId := id' + 1\<rparr>
      in case Definition_new param (Some id') (Some key') args of
           Inl e \<Rightarrow> (Inl e, s1)
         | Inr d \<Rightarrow>
             (case definitions_set (definitions s1) (definitionsProto s1) key' d of
                (defs, proto) \<Rightarrow>
                  (Inr d, s1\<lparr>definitions := defs, definitionsProto := proto,
                             definitionsById := (definitionsById s1)(id' \<mapsto> d)\<rparr>)))"



text \<open>\<^verbatim>\<open>idCodec.byteLength\<close>, a property of the fixed-length codecs only.\<close>

fun codec_byteLength :: "codec \<Rightarrow> nat option" where
  "codec_byteLength (CBoolean c) = Some (byteLength c)"
| "codec_byteLength (CFloat c) = Some (byteLength c)"
| "codec_byteLength (CInteger c) = Some (byteLength c)"
| "codec_byteLength c = None"

text \<open>
  The definition that \<^verbatim>\<open>stringify\<close> finds by name is the object that
  \<^verbatim>\<open>definitionsById\<close> holds under its id, so a length cached in it shows in both maps.

  In \<^verbatim>\<open>stringify\<close> the test \<^verbatim>\<open>definition == null\<close> lets an inherited member of
  \<^verbatim>\<open>Object.prototype\<close> pass. The next statement that can fail is
  \<^verbatim>\<open>idCodec.byteLength + definition.codec.getByteLength(object)\<close>: a \<^verbatim>\<open>TypeError\<close>, at
  \<^verbatim>\<open>idCodec.byteLength\<close> when the id codec is \<^verbatim>\<open>undefined\<close> and else at
  \<^verbatim>\<open>definition.codec.getByteLength\<close>, since the inherited member has no \<^verbatim>\<open>codec\<close>.
\<close>

definition Schema_store :: "Schema \<Rightarrow> string \<Rightarrow> Definition \<Rightarrow> Schema" where
  "Schema_store s key' d =
     (case definitions_set (definitions s) (definitionsProto s) key' d of
        (defs, proto) \<Rightarrow>
          s\<lparr>definitions := defs, definitionsProto := proto,
            definitionsById := (case def_id d of
                                  None \<Rightarrow> definitionsById s
                                | Some i \<Rightarrow> (definitionsById s)(i \<mapsto> d))\<rparr>)"

definition Schema_stringify ::
  "Schema \<Rightarrow> string \<Rightarrow> jsvalue \<Rightarrow> (error + nat list) \<times> Schema" where
  "Schema_stringify s key' object =
     (case definitions_get (definitions s) (definitionsProto s) key' of
        NotFound \<Rightarrow> (Inl (KeyNotDefined key'), s)
      | FoundInherited \<Rightarrow> (Inl TypeError, s)
      | NotFollowed \<Rightarrow> (Inl Unmodelled, s)
      | Found d \<Rightarrow>
          (case codecs_get (idType s) of
             None \<Rightarrow> (Inl TypeError, s)
           | Some idCodec \<Rightarrow>
               (case dc_getByteLength (def_codec d) object of
                  (Inl e, dc') \<Rightarrow> (Inl e, Schema_store s key' (d\<lparr>def_codec := dc'\<rparr>))
                | (Inr n, dc') \<Rightarrow>
                    (let s' = Schema_store s key' (d\<lparr>def_codec := dc'\<rparr>)
                     in case codec_byteLength idCodec of
                          None \<Rightarrow> (Inl Unmodelled, s')
                        | Some w \<Rightarrow>
                            (case codec_set idCodec (StreamView_create (w + n))
                                    (case def_id d of None \<Rightarrow> JUndefined
                                                    | Some i \<Rightarrow> JNum (int i)) False of
                               Inl e \<Rightarrow> (Inl e, s')
                             | Inr sv1 \<Rightarrow>
                                 (case dc_set dc' sv1 object of
                                    Inl e \<Rightarrow> (Inl e, s')
                                  | Inr sv2 \<Rightarrow> (Inr (StreamView_toString sv2), s')))))))"

section \<open>The earlier revision of the module\<close>

text \<open>
  The second source file has the same \<^verbatim>\<open>Codec\<close> (here \<open>FixedLengthCodec\<close>),
  \<^verbatim>\<open>BooleanCodec\<close>, \<^verbatim>\<open>FloatCodec\<close>, \<^verbatim>\<open>IntegerCodec\<close> and \<^verbatim>\<open>StreamView\<close>. It differs in
  what follows: arrays and strings are prefixed with an unsigned 32-bit length, the
  valid type names are a fixed list, a definition holds its fields itself, and
  \<^verbatim>\<open>define\<close> takes the field list.
\<close>

datatype part0_codec =
    P0Boolean FixedLengthCodec
  | P0Float FixedLengthCodec
  | P0Integer IntegerCodec
  | P0String
  | P0Array part0_codec
  | P0Inherited string

definition part0_codecs :: "(string \<times> part0_codec) list" where
  "part0_codecs =
     [(''boolean'', P0Boolean codecs_boolean),
      (''float32'', P0Float codecs_float32),
      (''float64'', P0Float codecs_float64),
      (''int8'', P0Integer codecs_int8),
      (''int16'', P0Integer codecs_int16),
      (''int32'', P0Integer codecs_int32),
      (''uint8'', P0Integer codecs_uint8),
      (''uint16'', P0Integer codecs_uint16),
      (''uint32'', P0Integer codecs_uint32),
      (''string'', P0String)]"

text \<open>
  \<^verbatim>\<open>codecs[name]\<close> for any name: \<^verbatim>\<open>codecs\<close> is a plain object too, and \<open>P0Inherited\<close>
  is what \<open>CInherited\<close> is above.
\<close>

definition part0_codecs_get :: "string \<Rightarrow> part0_codec option" where
  "part0_codecs_get name =
     (case map_of part0_codecs name of
        Some c \<Rightarrow> Some c
      | None \<Rightarrow> if name \<in> set Object_prototype_keys then Some (P0Inherited name) else None)"

definition part0_isValidType :: "string option \<Rightarrow> bool" where
  "part0_isValidType t =
     (case t of
        None \<Rightarrow> False
      | Some name \<Rightarrow>
          name \<in> set [''array'', ''string'', ''boolean'', ''int8'', ''int16'', ''int32'',
                      ''uint8'', ''uint16'', ''uint32'', ''float32'', ''float64''])"

text \<open>\<^verbatim>\<open>codec.byteLength\<close>: a property of the fixed-length codecs only.\<close>

fun part0_codec_byteLength :: "part0_codec \<Rightarrow> nat option" where
  "part0_codec_byteLength (P0Boolean c) = Some (byteLength c)"
| "part0_codec_byteLength (P0Float c) = Some (byteLength c)"
| "part0_codec_byteLength (P0Integer c) = Some (byteLength c)"
| "part0_codec_byteLength c = None"

text \<open>
  \<^verbatim>\<open>StringCodec.getByteLength\<close>: \<^verbatim>\<open>value.length\<close> of \<^verbatim>\<open>undefined\<close> is a \<^verbatim>\<open>TypeError\<close>; a
  number or a boolean has no \<^verbatim>\<open>length\<close> and makes the result NaN, which is not followed.
\<close>

definition part0_StringCodec_getByteLength :: "jsvalue \<Rightarrow> error + nat" where
  "part0_StringCodec_getByteLength v =
     (case v of
        JStr s \<Rightarrow>
          (let value' = (if truthy v then utf8_encode s else s)
           in Inr (byteLength codecs_uint32 + byteLength codecs_uint8 * length value'))
      | JUndefined \<Rightarrow> Inl TypeError
      | _ \<Rightarrow> Inl Unmodelled)"

definition part0_StringCodec_set :: "StreamView \<Rightarrow> jsvalue \<Rightarrow> bool \<Rightarrow> error + StreamView" where
  "part0_StringCodec_set sv v littleEndian =
     (if truthy v
      then (case v of
              JStr s \<Rightarrow>
                (let utf8String = utf8_encode s
                 in case IntegerCodec_set codecs_uint32 sv (JNum (int (length utf8String)))
                           littleEndian of
                      Inl e \<Rightarrow> Inl e
                    | Inr sv1 \<Rightarrow> StringCodec_set_loop utf8String sv1 littleEndian)
            | _ \<Rightarrow> Inl Unmodelled)
      else IntegerCodec_set codecs_uint32 sv (JNum 0) littleEndian)"

definition part0_StringCodec_get :: "StreamView \<Rightarrow> bool \<Rightarrow> error + jsvalue \<times> StreamView" where
  "part0_StringCodec_get sv littleEndian =
     (case FixedLengthCodec_get codecs_uint32 sv littleEndian of
        Inl e \<Rightarrow> Inl e
      | Inr (v, sv1) \<Rightarrow>
          (case ToNumber v of
             Inl e \<Rightarrow> Inl e
           | Inr None \<Rightarrow> Inr (JStr [], sv1)
           | Inr (Some len) \<Rightarrow>
               if len > 0
               then (case StringCodec_get_loop (nat len) [] sv1 littleEndian of
                       Inl e \<Rightarrow> Inl e
                     | Inr (string, sv2) \<Rightarrow>
                         (case utf8_decode string of
                            Inl e \<Rightarrow> Inl (Utf8Error e)
                          | Inr s \<Rightarrow> Inr (JStr s, sv2)))
               else Inr (JStr [], sv1)))"

text \<open>
  \<^verbatim>\<open>ArrayCodec.getByteLength\<close> returns 0 at once for a value that is absent or empty
  (\<^verbatim>\<open>!values || !values.length\<close>); otherwise the length prefix counts. The
  fixed-length codecs of this revision have no \<^verbatim>\<open>getByteLength\<close> method, so a call of
  it is a \<^verbatim>\<open>TypeError\<close>; the callers test \<^verbatim>\<open>byteLength\<close> first and never make it.
\<close>

fun part0_codec_getByteLength :: "part0_codec \<Rightarrow> jsvalue \<Rightarrow> error + nat" where
  "part0_codec_getByteLength (P0Boolean c) v = Inl TypeError"
| "part0_codec_getByteLength (P0Float c) v = Inl TypeError"
| "part0_codec_getByteLength (P0Integer c) v = Inl TypeError"
| "part0_codec_getByteLength P0String v = part0_StringCodec_getByteLength v"
| "part0_codec_getByteLength (P0Array valueCodec) values =
     (case values_length values of
        Inl e \<Rightarrow> Inl e
      | Inr len \<Rightarrow>
          if len = 0 then Inr 0
          else (case part0_codec_byteLength valueCodec of
                  Some b \<Rightarrow> Inr (byteLength codecs_uint32 + len * b)
                | None \<Rightarrow>
                    ArrayCodec_getByteLength_loop (part0_codec_getByteLength valueCodec)
                      (values_elements values) (byteLength codecs_uint32)))"
| "part0_codec_getByteLength (P0Inherited name) v = Inl TypeError"

fun part0_codec_set :: "part0_codec \<Rightarrow> StreamView \<Rightarrow> jsvalue \<Rightarrow> bool \<Rightarrow> error + StreamView" where
  "part0_codec_set (P0Boolean c) sv v littleEndian = BooleanCodec_set c sv v littleEndian"
| "part0_codec_set (P0Float c) sv v littleEndian = FixedLengthCodec_set c sv v littleEndian"
| "part0_codec_set (P0Integer c) sv v littleEndian = IntegerCodec_set c sv v littleEndian"
| "part0_codec_set P0String sv v littleEndian = part0_StringCodec_set sv v littleEndian"
| "part0_codec_set (P0Array valueCodec) sv values littleEndian =
     (case values_length values of
        Inl e \<Rightarrow> Inl e
      | Inr len \<Rightarrow>
          (case IntegerCodec_set codecs_uint32 sv (JNum (int len)) littleEndian of
             Inl e \<Rightarrow> Inl e
           | Inr sv1 \<Rightarrow>
               if len > 0
               then ArrayCodec_set_loop (\<lambda>s v. part0_codec_set valueCodec s v littleEndian)
                      (values_elements values) sv1
               else Inr sv1))"
| "part0_codec_set (P0Inherited name) sv v littleEndian = Inl TypeError"

fun part0_codec_get :: "part0_codec \<Rightarrow> StreamView \<Rightarrow> bool \<Rightarrow> error + jsvalue \<times> StreamView" where
  "part0_codec_get (P0Boolean c) sv littleEndian = BooleanCodec_get c sv littleEndian"
| "part0_codec_get (P0Float c) sv littleEndian = FixedLengthCodec_get c sv littleEndian"
| "part0_codec_get (P0Integer c) sv littleEndian = FixedLengthCodec_get c sv littleEndian"
| "part0_codec_get P0String sv littleEndian = part0_StringCodec_get sv littleEndian"
| "part0_codec_get (P0Array valueCodec) sv littleEndian =
     (case FixedLengthCodec_get codecs_uint32 sv littleEndian of
        Inl e \<Rightarrow> Inl e
      | Inr (v, sv1) \<Rightarrow>
          (case ToNumber v of
             Inl e \<Rightarrow> Inl e
           | Inr None \<Rightarrow> Inr (JArr [], sv1)
           | Inr (Some len) \<Rightarrow>
               if len > 0
               then (case ArrayCodec_get_loop (\<lambda>s. part0_codec_get valueCodec s littleEndian)
                            (nat len) [] sv1 of
                       Inl e \<Rightarrow> Inl e
                     | Inr (values, sv2) \<Rightarrow> Inr (JArr values, sv2))
               else Inr (JArr [], sv1)))"
| "part0_codec_get (P0Inherited name) sv littleEndian = Inl TypeError"

text \<open>
  \<^verbatim>\<open>new ArrayCodec(valueCodec)\<close>. With a string the constructor looks the name up in
  \<^verbatim>\<open>codecs\<close> and throws when the result is falsy. A value that is not a string is kept
  unchecked; the module never passes one (\<^verbatim>\<open>Field\<close> has validated the name), and an
  array codec over \<^verbatim>\<open>undefined\<close> (\<open>None\<close>) is not followed.
\<close>

definition part0_ArrayCodec_new :: "string option \<Rightarrow> error + part0_codec" where
  "part0_ArrayCodec_new valueCodec =
     (case valueCodec of
        None \<Rightarrow> Inl Unmodelled
      | Some name \<Rightarrow>
          (case part0_codecs_get name of
             None \<Rightarrow> Inl (InvalidArrayValueType valueCodec)
           | Some c \<Rightarrow> Inr (P0Array c)))"

text \<open>
  A field; \<^verbatim>\<open>codecs[this.type]\<close> is evaluated for a type that has passed
  \<^verbatim>\<open>isValidType\<close>, so it is the lookup of the table itself.
\<close>

record part0_Field =
  p0_key :: string
  p0_type :: string
  p0_valueType :: "string option"
  p0_codec :: "part0_codec option"

definition part0_Field_new :: "field_options \<Rightarrow> error + part0_Field" where
  "part0_Field_new opts =
     (case opt_key opts of
        None \<Rightarrow> Inl KeyRequired
      | Some k \<Rightarrow>
          if k = [] then Inl KeyRequired
          else if \<not> part0_isValidType (opt_type opts) then Inl (InvalidType (opt_type opts))
          else if opt_type opts = Some ''array''
          then (if opt_valueType opts = Some ''array'' \<or> opt_valueType opts = Some ''string''
                   \<or> \<not> part0_isValidType (opt_valueType opts)
                then Inl (InvalidArrayValueType (opt_valueType opts))
                else (case part0_ArrayCodec_new (opt_valueType opts) of
                        Inl e \<Rightarrow> Inl e
                      | Inr c \<Rightarrow>
                          Inr \<lparr>p0_key = k, p0_type = the (opt_type opts),
                               p0_valueType = opt_valueType opts, p0_codec = Some c\<rparr>))
          else Inr \<lparr>p0_key = k, p0_type = the (opt_type opts),
                    p0_valueType = opt_valueType opts,
                    p0_codec = map_of part0_codecs (the (opt_type opts))\<rparr>)"

fun part0_Field_new_all :: "field_options list \<Rightarrow> error + part0_Field list" where
  "part0_Field_new_all [] = Inr []"
| "part0_Field_new_all (opts # rest) =
     (case part0_Field_new opts of
        Inl e \<Rightarrow> Inl e
      | Inr f \<Rightarrow>
          (case part0_Field_new_all rest of Inl e \<Rightarrow> Inl e | Inr fs \<Rightarrow> Inr (f # fs)))"

record part0_Definition =
  p0_fields :: "part0_Field list"
  p0_id :: "nat option"
  p0_defkey :: "string option"
  p0_littleEndian :: bool
  p0_byteLength :: "nat option"

definition part0_Definition_new ::
  "part0_Field list \<Rightarrow> nat option \<Rightarrow> string option \<Rightarrow> part0_Definition" where
  "part0_Definition_new fs id' key' =
     \<lparr>p0_fields = fs, p0_id = id', p0_defkey = key', p0_littleEndian = False,
      p0_byteLength = None\<rparr>"

fun part0_Definition_getByteLength_loop ::
  "part0_Field list \<Rightarrow> jsvalue \<Rightarrow> nat \<Rightarrow> bool \<Rightarrow> error + nat \<times> bool" where
  "part0_Definition_getByteLength_loop [] object bl fixed = Inr (bl, fixed)"
| "part0_Definition_getByteLength_loop (f # fs) object bl fixed =
     (case p0_codec f of
        None \<Rightarrow> Inl TypeError
      | Some c \<Rightarrow>
          (case part0_codec_byteLength c of
             Some b \<Rightarrow> part0_Definition_getByteLength_loop fs object (bl + b) fixed
           | None \<Rightarrow>
               (case object_get object (p0_key f) of
                  Inl e \<Rightarrow> Inl e
                | Inr v \<Rightarrow>
                    (case part0_codec_getByteLength c v of
                       Inl e \<Rightarrow> Inl e
                     | Inr b \<Rightarrow>
                         part0_Definition_getByteLength_loop fs object (bl + b) False))))"

definition part0_Definition_getByteLength ::
  "part0_Definition \<Rightarrow> jsvalue \<Rightarrow> (error + nat) \<times> part0_Definition" where
  "part0_Definition_getByteLength d object =
     (case p0_byteLength d of
        Some bl \<Rightarrow> (Inr bl, d)
      | None \<Rightarrow>
          (case part0_Definition_getByteLength_loop (p0_fields d) object 0 True of
             Inl e \<Rightarrow> (Inl e, d)
           | Inr (bl, fixed) \<Rightarrow>
               (Inr bl, if fixed then d\<lparr>p0_byteLength := Some bl\<rparr> else d)))"

fun part0_Definition_get_loop ::
  "part0_Field list \<Rightarrow> bool \<Rightarrow> (string \<times> jsvalue) list \<Rightarrow> StreamView
   \<Rightarrow> error + (string \<times> jsvalue) list \<times> StreamView" where
  "part0_Definition_get_loop [] littleEndian object sv = Inr (object, sv)"
| "part0_Definition_get_loop (f # fs) littleEndian object sv =
     (case p0_codec f of
        None \<Rightarrow> Inl TypeError
      | Some c \<Rightarrow>
          (case part0_codec_get c sv littleEndian of
             Inl e \<Rightarrow> Inl e
           | Inr (v, sv') \<Rightarrow>
               (case object_put object (p0_key f) v of
                  Inl e \<Rightarrow> Inl e
                | Inr object' \<Rightarrow> part0_Definition_get_loop fs littleEndian object' sv')))"

definition part0_Definition_get ::
  "part0_Definition \<Rightarrow> StreamView \<Rightarrow> error + jsvalue \<times> StreamView" where
  "part0_Definition_get d sv =
     (case part0_Definition_get_loop (p0_fields d) (p0_littleEndian d) [] sv of
        Inl e \<Rightarrow> Inl e
      | Inr (object, sv') \<Rightarrow> Inr (JObj object, sv'))"

fun part0_Definition_set_loop ::
  "part0_Field list \<Rightarrow> bool \<Rightarrow> StreamView \<Rightarrow> jsvalue \<Rightarrow> error + StreamView" where
  "part0_Definition_set_loop [] littleEndian sv object = Inr sv"
| "part0_Definition_set_loop (f # fs) littleEndian sv object =
     (case p0_codec f of
        None \<Rightarrow> Inl TypeError
      | Some c \<Rightarrow>
          (case object_get object (p0_key f) of
             Inl e \<Rightarrow> Inl e
           | Inr v \<Rightarrow>
               (case part0_codec_set c sv v littleEndian of
                  Inl e \<Rightarrow> Inl e
                | Inr sv' \<Rightarrow> part0_Definition_set_loop fs littleEndian sv' object)))"

definition part0_Definition_set ::
  "part0_Definition \<Rightarrow> StreamView \<Rightarrow> jsvalue \<Rightarrow> error + StreamView" where
  "part0_Definition_set d sv object =
     part0_Definition_set_loop (p0_fields d) (p0_littleEndian d) sv object"

definition part0_Definition_parse :: "part0_Definition \<Rightarrow> nat list \<Rightarrow> error + jsvalue" where
  "part0_Definition_parse d string =
     (case StreamView_createFromString string of
        Inl e \<Rightarrow> Inl e
      | Inr sv \<Rightarrow> map_sum id fst (part0_Definition_get d sv))"

definition part0_Definition_stringify ::
  "part0_Definition \<Rightarrow> jsvalue \<Rightarrow> (error + nat list) \<times> part0_Definition" where
  "part0_Definition_stringify d object =
     (case part0_Definition_getByteLength d object of
        (Inl e, d') \<Rightarrow> (Inl e, d')
      | (Inr n, d') \<Rightarrow>
          (case part0_Definition_set d' (StreamView_create n) object of
             Inl e \<Rightarrow> (Inl e, d')
           | Inr sv \<Rightarrow> (Inr (StreamView_toString sv), d')))"

text \<open>The exported \<^verbatim>\<open>define(fields)\<close>.\<close>

definition part0_define :: "field_options list \<Rightarrow> error + part0_Definition" where
  "part0_define fieldOptions =
     (case part0_Field_new_all fieldOptions of
        Inl e \<Rightarrow> Inl e
      | Inr fs \<Rightarrow> Inr (part0_Definition_new fs None None))"









section \<open>The schema of the dispatch example\<close>




definition example_schema_fields_as_codec :: Schema where
  "example_schema_fields_as_codec =
     snd (Schema_define (snd (Schema_define createSchema ''ping'' (CodecValue NotACodec) []))
            ''pong'' (CodecValue NotACodec) [])"

section \<open>Integer codecs: clamping and round trip\<close>

lemma shared_instances:
  "IntegerCodec_new 1 True = Inr codecs_int8"
  "IntegerCodec_new 2 True = Inr codecs_int16"
  "IntegerCodec_new 4 True = Inr codecs_int32"
  "IntegerCodec_new 1 False = Inr codecs_uint8"
  "IntegerCodec_new 2 False = Inr codecs_uint16"
  "IntegerCodec_new 4 False = Inr codecs_uint32"
  by (simp_all add: IntegerCodec_new_def FixedLengthCodec_new_def codecs_int8_def codecs_int16_def
      codecs_int32_def codecs_uint8_def codecs_uint16_def codecs_uint32_def)

lemma shared_fixed_instances:
  "FixedLengthCodec_new 1 (UintN 8) (UintN 8) = Inr codecs_boolean"
  "FloatCodec_new 4 = Inr codecs_float32"
  "FloatCodec_new 8 = Inr codecs_float64"
  by (simp_all add: FixedLengthCodec_new_def FloatCodec_new_def codecs_boolean_def
      codecs_float32_def codecs_float64_def)

lemma length_le_bytes [simp]: "length (le_bytes n v) = n"
  by (induction n arbitrary: v) auto

lemma le_value_le_bytes: "le_value (le_bytes n v) = v mod 256 ^ n"
proof (induction n arbitrary: v)
  case 0
  then show ?case by simp
next
  case (Suc n)
  have "uint (word_of_int v :: byte) = v mod 256"
    by (simp add: uint_word_of_int)
  then show ?case using Suc
    by (simp add: zmod_zmult2_eq)
qed

lemma le_value_nonneg: "0 \<le> le_value bs"
  by (induction bs) auto

lemma le_value_less: "le_value bs < 256 ^ length bs"
proof (induction bs)
  case Nil
  then show ?case by simp
next
  case (Cons b bs)
  have "uint b < 256" using uint_bounded [of b] by simp
  with Cons show ?case by simp
qed


lemma byte_order_involution [simp]: "byte_order le (byte_order le bs) = bs"
  by (simp add: byte_order_def)

lemma length_byte_order [simp]: "length (byte_order le bs) = length bs"
  by (simp add: byte_order_def)

lemma le_value_byte_order_less: "le_value (byte_order le bs) < 256 ^ length bs"
  using le_value_less [of "byte_order le bs"] by simp

lemma take_drop_splice:
  "off + n \<le> length buf \<Longrightarrow> length xs = n \<Longrightarrow>
   take n (drop off (take off buf @ xs @ drop (off + n) buf)) = xs"
  by (simp add: min_def)

lemma getUint_setInt:
  assumes "off + n \<le> length buf" "DataView_setInt n buf off v le = Inr buf'"
  shows "DataView_getUint n buf' off le = Inr (v mod 256 ^ n)"
  using assms
  by (auto simp: DataView_setInt_def DataView_getUint_def take_drop_splice le_value_le_bytes
           split: if_splits)


lemma signed_wrap:
  fixes x h :: int
  assumes "- h \<le> x" "x < h"
  shows "(if x mod (2 * h) \<ge> h then x mod (2 * h) - 2 * h else x mod (2 * h)) = x"
proof (cases "0 \<le> x")
  case True
  with assms have "x mod (2 * h) = x" by (simp add: mod_pos_pos_trivial)
  with assms show ?thesis by simp
next
  case False
  have "(x + 2 * h) mod (2 * h) = x + 2 * h"
    using assms False by (intro mod_pos_pos_trivial) auto
  then have "x mod (2 * h) = x + 2 * h" by simp
  with assms False show ?thesis by simp
qed

lemma IntegerCodec_new_cases:
  assumes "IntegerCodec_new bl sg = Inr c"
  shows "(bl = 1 \<or> bl = 2 \<or> bl = 4) \<and> byteLength c = bl
         \<and> getter c = (if sg then IntN (bl * 8) else UintN (bl * 8))
         \<and> setter c = (if sg then IntN (bl * 8) else UintN (bl * 8))
         \<and> minValue c = (if sg then - (2 ^ (bl * 8 - 1)) else 0)
         \<and> maxValue c = (if sg then 2 ^ (bl * 8 - 1) - 1 else 2 ^ (bl * 8) - 1)"
proof -
  have bl: "bl = 1 \<or> bl = 2 \<or> bl = 4"
    using assms
    by (auto simp: IntegerCodec_new_def FixedLengthCodec_new_def Let_def split: if_splits)
  moreover have "byteLength c = bl
         \<and> getter c = (if sg then IntN (bl * 8) else UintN (bl * 8))
         \<and> setter c = (if sg then IntN (bl * 8) else UintN (bl * 8))
         \<and> minValue c = (if sg then - (2 ^ (bl * 8 - 1)) else 0)
         \<and> maxValue c = (if sg then 2 ^ (bl * 8 - 1) - 1 else 2 ^ (bl * 8) - 1)"
    using assms
    by (auto simp: IntegerCodec_new_def FixedLengthCodec_new_def Let_def split: if_splits)
  ultimately show ?thesis by blast
qed

lemma clamp_range: "lo \<le> hi \<Longrightarrow> lo \<le> clamp v lo hi \<and> clamp v lo hi \<le> hi"
  by (simp add: clamp_def)

lemma IntegerCodec_set_eq_clamp:
  "IntegerCodec_set c sv (JNum v) le
   = FixedLengthCodec_set c sv (JNum (clamp v (minValue c) (maxValue c))) le"
  by (simp add: IntegerCodec_set_def clamp_def Let_def)


lemma FixedLengthCodec_set_JNum:
  assumes "IntegerCodec_new bl sg = Inr c" "byteOffset sv + bl \<le> length (dataView sv)"
  shows "FixedLengthCodec_set c sv (JNum n) le
         = Inr (sv\<lparr>dataView := take (byteOffset sv) (dataView sv) @ byte_order le (le_bytes bl n)
                              @ drop (byteOffset sv + bl) (dataView sv),
                  byteOffset := byteOffset sv + bl\<rparr>)"
proof -
  note c = IntegerCodec_new_cases [OF assms(1)]
  from c have "bl * 8 div 8 = bl" by simp
  with c assms(2) show ?thesis
    by (cases sg) (simp_all add: FixedLengthCodec_set_def DataView_set_def DataView_setInt_def)
qed

lemma DataView_get_spliced:
  assumes "IntegerCodec_new bl sg = Inr c" "off + bl \<le> length buf"
    and "minValue c \<le> n" "n \<le> maxValue c"
  shows "DataView_get (getter c)
           (take off buf @ byte_order le (le_bytes bl n) @ drop (off + bl) buf) off le
         = Inr (JNum n)"
proof -
  note c = IntegerCodec_new_cases [OF assms(1)]
  let ?buf' = "take off buf @ byte_order le (le_bytes bl n) @ drop (off + bl) buf"
  have len: "length ?buf' = length buf" using assms(2) by simp
  have u: "DataView_getUint bl ?buf' off le = Inr (n mod 256 ^ bl)"
    using assms(2) len
    by (simp add: DataView_getUint_def take_drop_splice le_value_le_bytes)
  define h :: int where "h = 2 ^ (8 * bl - 1)"
  have p: "(256::int) ^ bl = 2 * h" "(2::int) ^ (8 * bl) = 2 * h" "(2::int) ^ (bl * 8 - 1) = h"
          "(2::int) ^ (bl * 8) = 2 * h"
    using c by (auto simp: h_def)
  have mv: "sg \<Longrightarrow> minValue c = - h \<and> maxValue c = h - 1"
           "\<not> sg \<Longrightarrow> minValue c = 0 \<and> maxValue c = 2 * h - 1"
    using c by (auto simp: h_def)
  have gs: "getter c = (if sg then IntN (bl * 8) else UintN (bl * 8))" "byteLength c = bl"
           "bl * 8 div 8 = bl"
    using c by simp_all
  show ?thesis
  proof (cases sg)
    case True
    with mv assms(3,4) have "- h \<le> n" "n < h" by auto
    from signed_wrap [OF this]
    have w: "(if n mod (2 * h) \<ge> h then n mod (2 * h) - 2 * h else n mod (2 * h)) = n" .
    have "DataView_getInt bl ?buf' off le = Inr n"
      unfolding DataView_getInt_def u p h_def [symmetric] using w by simp
    with True gs show ?thesis
      by simp
  next
    case False
    with mv assms(3,4) have "n mod 256 ^ bl = n"
      by (simp add: p mod_pos_pos_trivial)
    with False gs u show ?thesis
      by simp
  qed
qed

lemma FixedLengthCodec_get_range:
  assumes "IntegerCodec_new bl sg = Inr c" "FixedLengthCodec_get c sv le = Inr (x, sv')"
  shows "\<exists>n. x = JNum n \<and> minValue c \<le> n \<and> n \<le> maxValue c"
proof -
  note c = IntegerCodec_new_cases [OF assms(1)]
  define h :: int where "h = 2 ^ (8 * bl - 1)"
  have p: "(256::int) ^ bl = 2 * h" "(2::int) ^ (8 * bl) = 2 * h" "(2::int) ^ (bl * 8 - 1) = h"
          "(2::int) ^ (bl * 8) = 2 * h"
    using c by (auto simp: h_def)
  have mv: "sg \<Longrightarrow> minValue c = - h \<and> maxValue c = h - 1"
           "\<not> sg \<Longrightarrow> minValue c = 0 \<and> maxValue c = 2 * h - 1"
    using c by (auto simp: h_def)
  have gs: "getter c = (if sg then IntN (bl * 8) else UintN (bl * 8))" "byteLength c = bl"
           "bl * 8 div 8 = bl"
    using c by simp_all
  obtain u where u: "DataView_getUint bl (dataView sv) (byteOffset sv) le = Inr u"
    using assms(2) gs
    by (cases sg; cases "DataView_getUint bl (dataView sv) (byteOffset sv) le")
       (auto simp: FixedLengthCodec_get_def DataView_getInt_def split: sum.splits)
  then have fits: "byteOffset sv + bl \<le> length (dataView sv)"
    and uv: "u = le_value (byte_order le (take bl (drop (byteOffset sv) (dataView sv))))"
    by (auto simp: DataView_getUint_def split: if_splits)
  have "length (take bl (drop (byteOffset sv) (dataView sv))) = bl"
    using fits by simp
  with le_value_byte_order_less [of le "take bl (drop (byteOffset sv) (dataView sv))"]
  have ub: "0 \<le> u" "u < 2 * h"
    using uv le_value_nonneg by (simp_all add: p)
  show ?thesis
  proof (cases sg)
    case True
    have "DataView_getInt bl (dataView sv) (byteOffset sv) le
          = Inr (if u \<ge> h then u - 2 * h else u)"
      unfolding DataView_getInt_def u p h_def [symmetric] by simp
    with True gs assms(2) have "x = JNum (if u \<ge> h then u - 2 * h else u)"
      by (auto simp: FixedLengthCodec_get_def)
    with True mv ub show ?thesis by auto
  next
    case False
    with gs assms(2) u have "x = JNum u"
      by (auto simp: FixedLengthCodec_get_def)
    with False mv ub show ?thesis by auto
  qed
qed


lemma IntegerCodec_min_le_max:
  assumes "IntegerCodec_new bl sg = Inr c"
  shows "minValue c \<le> maxValue c"
  using IntegerCodec_new_cases [OF assms] by (cases sg) auto

text \<open>
  Claim C5. Every integer codec that can be constructed has a width of 1, 2 or 4 bytes
  and the two's-complement (signed) or \<open>[0, 2 ^ bits - 1]\<close> (unsigned) range of that
  width. Encoding \<open>v\<close> is encoding the clamp of \<open>v\<close> to that range: wherever the
  buffer has room the write succeeds and stores the bytes of the clamped value, so it
  neither raises nor wraps. A signed 8-bit field given 200 is written as 127 is, and an
  unsigned 8-bit field given -5 as 0 is.
\<close>

theorem IntegerCodec_set_clamps:
  assumes "IntegerCodec_new bl sg = Inr c"
  shows "(bl = 1 \<or> bl = 2 \<or> bl = 4)
       \<and> minValue c = (if sg then - (2 ^ (bl * 8 - 1)) else 0)
       \<and> maxValue c = (if sg then 2 ^ (bl * 8 - 1) - 1 else 2 ^ (bl * 8) - 1)
       \<and> IntegerCodec_set c sv (JNum v) le
           = IntegerCodec_set c sv (JNum (clamp v (minValue c) (maxValue c))) le
       \<and> (byteOffset sv + bl \<le> length (dataView sv) \<longrightarrow>
            IntegerCodec_set c sv (JNum v) le
            = Inr (sv\<lparr>dataView := take (byteOffset sv) (dataView sv)
                                   @ byte_order le (le_bytes bl (clamp v (minValue c) (maxValue c)))
                                   @ drop (byteOffset sv + bl) (dataView sv),
                      byteOffset := byteOffset sv + bl\<rparr>))
       \<and> IntegerCodec_set codecs_int8 sv (JNum 200) le = IntegerCodec_set codecs_int8 sv (JNum 127) le
       \<and> IntegerCodec_set codecs_uint8 sv (JNum (- 5)) le = IntegerCodec_set codecs_uint8 sv (JNum 0) le"
proof -
  note c = IntegerCodec_new_cases [OF assms]
  have idem: "clamp (clamp v (minValue c) (maxValue c)) (minValue c) (maxValue c)
              = clamp v (minValue c) (maxValue c)"
    using IntegerCodec_min_le_max [OF assms] by (simp add: clamp_def)
  have 1: "IntegerCodec_set c sv (JNum v) le
           = IntegerCodec_set c sv (JNum (clamp v (minValue c) (maxValue c))) le"
    by (simp add: IntegerCodec_set_eq_clamp idem)
  have 2: "byteOffset sv + bl \<le> length (dataView sv) \<longrightarrow>
            IntegerCodec_set c sv (JNum v) le
            = Inr (sv\<lparr>dataView := take (byteOffset sv) (dataView sv)
                                   @ byte_order le (le_bytes bl (clamp v (minValue c) (maxValue c)))
                                   @ drop (byteOffset sv + bl) (dataView sv),
                      byteOffset := byteOffset sv + bl\<rparr>)"
    by (simp add: IntegerCodec_set_eq_clamp FixedLengthCodec_set_JNum [OF assms])
  have 3: "IntegerCodec_set codecs_int8 sv (JNum 200) le = IntegerCodec_set codecs_int8 sv (JNum 127) le"
    by (simp add: IntegerCodec_set_def codecs_int8_def)
  have 4: "IntegerCodec_set codecs_uint8 sv (JNum (- 5)) le = IntegerCodec_set codecs_uint8 sv (JNum 0) le"
    by (simp add: IntegerCodec_set_def codecs_uint8_def)
  from c 1 2 3 4 show ?thesis by blast
qed

theorem IntegerCodec_set_clamps_witness:
  "IntegerCodec_new 1 True = Inr codecs_int8
   \<and> IntegerCodec_set codecs_int8 (StreamView_create 1) (JNum 200) False
       = Inr \<lparr>dataView = [127], byteOffset = 1\<rparr>
   \<and> IntegerCodec_set codecs_int8 (StreamView_create 1) (JNum 127) False
       = Inr \<lparr>dataView = [127], byteOffset = 1\<rparr>"
proof -
  have h: "IntegerCodec_new 1 True = Inr codecs_int8"
    by (rule shared_instances)
  have fits: "byteOffset (StreamView_create 1) + 1 \<le> length (dataView (StreamView_create 1))"
    by (simp add: StreamView_create_def)
  have cl: "clamp 200 (minValue codecs_int8) (maxValue codecs_int8) = 127"
           "clamp 127 (minValue codecs_int8) (maxValue codecs_int8) = 127"
    by (simp_all add: clamp_def codecs_int8_def)
  from IntegerCodec_set_clamps [OF h, of "StreamView_create 1" 200 False] fits
       IntegerCodec_set_clamps [OF h, of "StreamView_create 1" 127 False]
  have "IntegerCodec_set codecs_int8 (StreamView_create 1) (JNum 200) False
       = Inr \<lparr>dataView = [127], byteOffset = 1\<rparr>
   \<and> IntegerCodec_set codecs_int8 (StreamView_create 1) (JNum 127) False
       = Inr \<lparr>dataView = [127], byteOffset = 1\<rparr>"
    by (simp add: cl StreamView_create_def byte_order_def)
  with h show ?thesis by blast
qed

text \<open>
  Claim C10. For every integer codec and every integer \<open>v\<close>, writing \<open>v\<close> where the
  buffer has room and reading at the same place in the same byte order yields the clamp
  of \<open>v\<close> to the codec's range. The read yields \<open>v\<close> itself exactly when \<open>v\<close> is in
  range, and whatever bytes a read decodes, its result is in range.
\<close>

theorem IntegerCodec_decode_encode_clamp:
  assumes "IntegerCodec_new bl sg = Inr c"
    and "byteOffset sv + bl \<le> length (dataView sv)"
  shows "\<exists>sv'. IntegerCodec_set c sv (JNum v) le = Inr sv'
           \<and> FixedLengthCodec_get c (sv'\<lparr>byteOffset := byteOffset sv\<rparr>) le
               = Inr (JNum (clamp v (minValue c) (maxValue c)), sv')
           \<and> (FixedLengthCodec_get c (sv'\<lparr>byteOffset := byteOffset sv\<rparr>) le = Inr (JNum v, sv')
                \<longleftrightarrow> minValue c \<le> v \<and> v \<le> maxValue c)
           \<and> (\<forall>sv0 x sv1. FixedLengthCodec_get c sv0 le = Inr (x, sv1)
                \<longrightarrow> (\<exists>n. x = JNum n \<and> minValue c \<le> n \<and> n \<le> maxValue c))"
proof -
  let ?cv = "clamp v (minValue c) (maxValue c)"
  let ?buf = "take (byteOffset sv) (dataView sv) @ byte_order le (le_bytes bl ?cv)
              @ drop (byteOffset sv + bl) (dataView sv)"
  let ?sv' = "sv\<lparr>dataView := ?buf, byteOffset := byteOffset sv + bl\<rparr>"
  have r: "minValue c \<le> ?cv" "?cv \<le> maxValue c"
    using clamp_range [OF IntegerCodec_min_le_max [OF assms(1)]] by simp_all
  have s: "IntegerCodec_set c sv (JNum v) le = Inr ?sv'"
    by (simp add: IntegerCodec_set_eq_clamp FixedLengthCodec_set_JNum [OF assms])
  have bl: "byteLength c = bl"
    using IntegerCodec_new_cases [OF assms(1)] by simp
  have g: "FixedLengthCodec_get c (?sv'\<lparr>byteOffset := byteOffset sv\<rparr>) le = Inr (JNum ?cv, ?sv')"
    by (simp add: FixedLengthCodec_get_def DataView_get_spliced [OF assms r] bl)
  have i: "?cv = v \<longleftrightarrow> minValue c \<le> v \<and> v \<le> maxValue c"
    using IntegerCodec_min_le_max [OF assms(1)] by (auto simp: clamp_def)
  have rng: "\<forall>sv0 x sv1. FixedLengthCodec_get c sv0 le = Inr (x, sv1)
                \<longrightarrow> (\<exists>n. x = JNum n \<and> minValue c \<le> n \<and> n \<le> maxValue c)"
    using FixedLengthCodec_get_range [OF assms(1)] by blast
  show ?thesis
    apply (rule exI [of _ ?sv'])
    using s g i rng by simp
qed

theorem IntegerCodec_decode_encode_clamp_witness:
  "IntegerCodec_new 2 True = Inr codecs_int16
   \<and> (\<exists>sv'. IntegerCodec_set codecs_int16 (StreamView_create 2) (JNum 40000) True = Inr sv'
         \<and> FixedLengthCodec_get codecs_int16 (sv'\<lparr>byteOffset := 0\<rparr>) True = Inr (JNum 32767, sv'))"
proof -
  have h: "IntegerCodec_new 2 True = Inr codecs_int16"
    by (rule shared_instances)
  have fits: "byteOffset (StreamView_create 2) + 2 \<le> length (dataView (StreamView_create 2))"
    by (simp add: StreamView_create_def)
  have cl: "clamp 40000 (minValue codecs_int16) (maxValue codecs_int16) = 32767"
    by (simp add: clamp_def codecs_int16_def)
  have z: "byteOffset (StreamView_create 2) = 0"
    by (simp add: StreamView_create_def)
  from IntegerCodec_decode_encode_clamp [OF h fits, of 40000 True]
  show ?thesis unfolding cl z using h by blast
qed


section \<open>The 32-bit operators on small non-negative integers\<close>

lemma ToInt32_id: "0 \<le> a \<Longrightarrow> a < 2147483648 \<Longrightarrow> ToInt32 a = a"
  by (simp add: ToInt32_def signed_take_bit_int_eq_self)

lemma and_127: "(a::int) AND 127 = a mod 128"
proof -
  have "a AND mask 7 = take_bit 7 a" by (simp add: take_bit_eq_mask)
  then show ?thesis by (simp add: take_bit_eq_mod mask_numeral)
qed

lemma js_and_127: "0 \<le> a \<Longrightarrow> a < 2147483648 \<Longrightarrow> js_and a 127 = a mod 128"
  by (simp add: js_and_def ToInt32_id and_127)

lemma js_sar_7: "0 \<le> a \<Longrightarrow> a < 2147483648 \<Longrightarrow> js_sar a 7 = a div 128"
  by (simp add: js_sar_def ToInt32_id drop_bit_eq_div)

lemma small_and_push: 
  fixes a g :: int
  assumes "0 \<le> a" "a < 2 ^ k"
  shows "a AND push_bit k g = 0"
proof -
  have "take_bit k a = a" using assms by (simp add: take_bit_int_eq_self)
  then have "a AND push_bit k g = take_bit k a AND push_bit k g" by simp
  also have "\<dots> = 0" by (auto simp: bit_eq_iff bit_simps)
  finally show ?thesis .
qed

lemma small_or_push:
  fixes a g :: int
  assumes "0 \<le> a" "a < 2 ^ k"
  shows "a OR push_bit k g = a + g * 2 ^ k"
  using disjunctive_add_eq_or [OF small_and_push [OF assms, of g]]
  by (simp add: push_bit_eq_mult)

lemma js_or_128: "0 \<le> g \<Longrightarrow> g < 128 \<Longrightarrow> js_or g 128 = g + 128"
  using small_or_push [of g 7 1] by (simp add: js_or_def ToInt32_id)

lemma js_and_128_small: "0 \<le> g \<Longrightarrow> g < 128 \<Longrightarrow> js_and g 128 = 0"
  using small_and_push [of g 7 1] by (simp add: js_and_def ToInt32_id)

lemma js_and_128_big: 
  assumes "0 \<le> g" "g < 128" shows "js_and (g + 128) 128 = 128"
proof -
  have "(g + 128) AND 128 = (g OR 128) AND 128"
    using small_or_push [of g 7 1] assms by simp
  also have "\<dots> = (g AND 128) OR (128 AND 128)"
    by (simp add: bit.conj_disj_distrib2)
  also have "\<dots> = 128" using small_and_push [of g 7 1] assms by simp
  finally show ?thesis using assms by (simp add: js_and_def ToInt32_id)
qed

lemma js_shl_small:
  assumes "0 \<le> g" "g * 2 ^ n < 2147483648" "n < 32"
  shows "js_shl g n = g * 2 ^ n"
proof -
  have "g \<le> g * 2 ^ n" using assms(1) by (simp add: mult_le_cancel_left1)
  with assms have "ToInt32 g = g" by (intro ToInt32_id) auto
  with assms show ?thesis by (simp add: js_shl_def push_bit_eq_mult ToInt32_id)
qed

lemma js_or_shl:
  assumes "0 \<le> len" "len < 2 ^ n" "0 \<le> g" "len + g * 2 ^ n < 2147483648" "n < 32"
  shows "js_or len (js_shl g n) = len + g * 2 ^ n"
proof -
  have g0: "0 \<le> g * 2 ^ n" using assms(3) by simp
  have g: "0 \<le> g * 2 ^ n" "g * 2 ^ n < 2147483648" "len < 2147483648"
    using assms(1,4) g0 by linarith+
  with assms have "js_shl g n = g * 2 ^ n" by (intro js_shl_small) auto
  with g assms small_or_push [of len n g] show ?thesis
    by (simp add: js_or_def ToInt32_id push_bit_eq_mult)
qed


section \<open>Variable-length unsigned integers\<close>

lemma bitsNeeded_0 [simp]: "bitsNeeded 0 = 0"
  by (simp add: bitsNeeded.simps)

lemma bitsNeeded_pos: "0 < v \<Longrightarrow> bitsNeeded v = Suc (bitsNeeded (v div 2))"
  by (subst bitsNeeded.simps) simp

lemma bitsNeeded_upper: "v < 2 ^ bitsNeeded v"
proof (induction v rule: bitsNeeded.induct)
  case (1 n)
  show ?case
  proof (cases "n = 0")
    case True
    then show ?thesis by simp
  next
    case False
    with 1 have "n div 2 < 2 ^ bitsNeeded (n div 2)" by simp
    then have "n < 2 * 2 ^ bitsNeeded (n div 2)" by linarith
    with False show ?thesis by (simp add: bitsNeeded_pos)
  qed
qed

lemma bitsNeeded_lower: "0 < v \<Longrightarrow> 2 ^ (bitsNeeded v - 1) \<le> v"
proof (induction v rule: bitsNeeded.induct)
  case (1 n)
  show ?case
  proof (cases "n div 2 = 0")
    case True
    with 1(2) have "n = 1" by linarith
    then show ?thesis by (simp add: bitsNeeded_pos)
  next
    case False
    with 1 have ih: "2 ^ (bitsNeeded (n div 2) - 1) \<le> n div 2" by simp
    from False have "0 < bitsNeeded (n div 2)" by (simp add: bitsNeeded_pos)
    then have "(2::nat) ^ bitsNeeded (n div 2) = 2 * 2 ^ (bitsNeeded (n div 2) - 1)"
      by (cases "bitsNeeded (n div 2)") simp_all
    with ih have "2 ^ bitsNeeded (n div 2) \<le> n" by linarith
    with 1(2) show ?thesis by (simp add: bitsNeeded_pos)
  qed
qed

lemma bitsNeeded_shift: "2 ^ k \<le> v \<Longrightarrow> bitsNeeded v = bitsNeeded (v div 2 ^ k) + k"
proof (induction k arbitrary: v)
  case 0
  then show ?case by simp
next
  case (Suc k)
  then have "2 ^ k \<le> v div 2" by simp
  from Suc.IH [OF this] have "bitsNeeded (v div 2) = bitsNeeded (v div 2 ^ Suc k) + k"
    by (simp add: div_mult2_eq)
  moreover from Suc.prems have "0 < v" by (cases v) auto
  ultimately show ?case by (simp add: bitsNeeded_pos)
qed

lemma bitsNeeded_small: "0 < v \<Longrightarrow> v < 128 \<Longrightarrow> 1 \<le> bitsNeeded v \<and> bitsNeeded v \<le> 7"
proof -
  assume v: "0 < v" "v < 128"
  have "bitsNeeded v \<le> 7"
  proof (rule ccontr)
    assume "\<not> bitsNeeded v \<le> 7"
    then have "7 \<le> bitsNeeded v - 1" by simp
    then have "(2::nat) ^ 7 \<le> 2 ^ (bitsNeeded v - 1)" by (rule power_increasing) simp
    with bitsNeeded_lower [OF v(1)] v(2) show False by simp
  qed
  with v show ?thesis by (simp add: bitsNeeded_pos)
qed

lemma getByteLength_small:
  "v < 128 \<Longrightarrow> VariableLengthUnsignedIntegerCodec_getByteLength v = 1"
proof (cases "v = 0")
  case True
  then show ?thesis
    by (simp add: VariableLengthUnsignedIntegerCodec_getByteLength_def Math_floor_log2_def
        codecs_uint8_def)
next
  case False
  assume "v < 128"
  with False bitsNeeded_small [of v] have b: "1 \<le> bitsNeeded v" "bitsNeeded v \<le> 7" by auto
  then have "Math_ceil_div (int (bitsNeeded v)) 7 = 1"
    unfolding Math_ceil_div_def by linarith
  with False show ?thesis
    by (simp add: VariableLengthUnsignedIntegerCodec_getByteLength_def Math_floor_log2_def
        codecs_uint8_def)
qed

lemma getByteLength_step:
  assumes "128 \<le> v"
  shows "VariableLengthUnsignedIntegerCodec_getByteLength v
         = Suc (VariableLengthUnsignedIntegerCodec_getByteLength (v div 128))"
proof -
  from assms have b: "bitsNeeded v = bitsNeeded (v div 128) + 7"
    using bitsNeeded_shift [of 7 v] by simp
  from assms have pos: "0 < v div 128" by (simp add: div_greater_zero_iff)
  then have b1: "1 \<le> bitsNeeded (v div 128)" by (simp add: bitsNeeded_pos)
  define m where "m = Math_ceil_div (int (bitsNeeded (v div 128))) 7"
  have c: "Math_ceil_div (int (bitsNeeded v)) 7 = m + 1"
    unfolding Math_ceil_div_def m_def b by linarith
  have c1: "1 \<le> m"
    using b1 unfolding Math_ceil_div_def m_def by linarith
  have "VariableLengthUnsignedIntegerCodec_getByteLength (v div 128) = nat m"
    using pos c1
    by (simp add: VariableLengthUnsignedIntegerCodec_getByteLength_def Math_floor_log2_def
        codecs_uint8_def max_def m_def)
  moreover have "VariableLengthUnsignedIntegerCodec_getByteLength v = nat (m + 1)"
    using assms c1 c
    by (simp add: VariableLengthUnsignedIntegerCodec_getByteLength_def Math_floor_log2_def
        codecs_uint8_def max_def)
  ultimately show ?thesis using c1 by simp
qed

lemma length_spec_varint:
  "length (spec_varint v) = VariableLengthUnsignedIntegerCodec_getByteLength v"
proof (induction v rule: spec_varint.induct)
  case (1 v)
  show ?case
  proof (cases "v < 128")
    case True
    then show ?thesis by (simp add: spec_varint.simps getByteLength_small)
  next
    case False
    with 1 show ?thesis by (simp add: spec_varint.simps [of v] getByteLength_step)
  qed
qed

lemma write_bytes_Nil [simp]: "write_bytes sv [] = sv"
  by (simp add: write_bytes_def)

lemma byteOffset_write_bytes [simp]:
  "byteOffset (write_bytes sv bs) = byteOffset sv + length bs"
  by (simp add: write_bytes_def)

lemma length_write_bytes [simp]:
  "byteOffset sv + length bs \<le> length (dataView sv)
   \<Longrightarrow> length (dataView (write_bytes sv bs)) = length (dataView sv)"
  by (simp add: write_bytes_def)

lemma write_bytes_append:
  assumes "byteOffset sv + length xs + length ys \<le> length (dataView sv)"
  shows "write_bytes (write_bytes sv xs) ys = write_bytes sv (xs @ ys)"
proof -
  have o: "byteOffset sv \<le> length (dataView sv)" using assms by simp
  show ?thesis using assms o by (simp add: write_bytes_def min_absorb2 ac_simps)
qed

lemma uint8_set_writes:
  assumes "0 \<le> b" "b \<le> 255" "byteOffset sv < length (dataView sv)"
  shows "IntegerCodec_set codecs_uint8 sv (JNum b) le = Inr (write_bytes sv [word_of_int b])"
  using assms
  by (simp add: IntegerCodec_set_def codecs_uint8_def FixedLengthCodec_set_def DataView_set_def
      DataView_setInt_def write_bytes_def byte_order_def)

lemma uint8_set_out_of_range:
  assumes "length (dataView sv) \<le> byteOffset sv"
  shows "IntegerCodec_set codecs_uint8 sv (JNum b) le = Inl RangeError"
  using assms
  by (simp add: IntegerCodec_set_def codecs_uint8_def FixedLengthCodec_set_def DataView_set_def
      Let_def)

lemma uint8_get_reads:
  assumes "byteOffset sv < length (dataView sv)"
  shows "FixedLengthCodec_get codecs_uint8 sv le
         = Inr (JNum (uint (dataView sv ! byteOffset sv)), sv\<lparr>byteOffset := byteOffset sv + 1\<rparr>)"
proof -
  from assms have "take (Suc 0) (drop (byteOffset sv) (dataView sv)) = [dataView sv ! byteOffset sv]"
    by (simp add: Cons_nth_drop_Suc [symmetric])
  with assms show ?thesis
    by (simp add: FixedLengthCodec_get_def codecs_uint8_def DataView_getUint_def byte_order_def)
qed

lemma uint8_get_out_of_range:
  assumes "length (dataView sv) \<le> byteOffset sv"
  shows "FixedLengthCodec_get codecs_uint8 sv le = Inl RangeError"
  using assms
  by (simp add: FixedLengthCodec_get_def codecs_uint8_def DataView_getUint_def)

lemma holds_at_Cons:
  "holds_at sv (b # bs) \<longleftrightarrow>
     byteOffset sv < length (dataView sv) \<and> dataView sv ! byteOffset sv = b
     \<and> holds_at (sv\<lparr>byteOffset := byteOffset sv + 1\<rparr>) bs"
proof (cases "byteOffset sv < length (dataView sv)")
  case True
  then have "drop (byteOffset sv) (dataView sv)
             = dataView sv ! byteOffset sv # drop (Suc (byteOffset sv)) (dataView sv)"
    by (simp add: Cons_nth_drop_Suc)
  with True show ?thesis by (auto simp: holds_at_def)
next
  case False
  then show ?thesis by (simp add: holds_at_def)
qed

lemma holds_at_Nil [simp]: "holds_at sv [] \<longleftrightarrow> byteOffset sv \<le> length (dataView sv)"
  by (simp add: holds_at_def)

lemma holds_at_append:
  "holds_at sv (xs @ ys) \<longleftrightarrow>
     holds_at sv xs \<and> holds_at (sv\<lparr>byteOffset := byteOffset sv + length xs\<rparr>) ys"
proof -
  let ?d = "drop (byteOffset sv) (dataView sv)"
  have "take (length xs + length ys) ?d = take (length xs) ?d @ take (length ys) (drop (length xs) ?d)"
    by (simp add: take_add)
  moreover have "byteOffset sv + length xs \<le> length (dataView sv)
      \<Longrightarrow> length (take (length xs) ?d) = length xs"
    by simp
  ultimately show ?thesis
    by (auto simp: holds_at_def ac_simps)
qed

lemma holds_at_write_bytes:
  assumes "byteOffset sv + length bs \<le> length (dataView sv)"
  shows "holds_at ((write_bytes sv bs)\<lparr>byteOffset := byteOffset sv\<rparr>) bs"
  using assms by (simp add: holds_at_def write_bytes_def)

lemma set_loop_0: "VariableLengthUnsignedIntegerCodec_set_loop sv 0 le = Inr sv"
  by (simp add: VariableLengthUnsignedIntegerCodec_set_loop.simps)

lemma set_loop_writes:
  assumes "0 < v" "v < 2147483648"
    and "byteOffset sv + length (spec_varint v) \<le> length (dataView sv)"
  shows "VariableLengthUnsignedIntegerCodec_set_loop sv (int v) le
         = Inr (write_bytes sv (spec_varint v))"
  using assms
proof (induction v arbitrary: sv rule: spec_varint.induct)
  case (1 v)
  have r: "0 \<le> int v" "int v < 2147483648" using "1.prems" by simp_all
  have a: "js_and (int v) 127 = int (v mod 128)"
    using js_and_127 [OF r] by (simp add: zmod_int)
  have s: "js_sar (int v) 7 = int (v div 128)"
    using js_sar_7 [OF r] by (simp add: zdiv_int)
  show ?case
  proof (cases "v < 128")
    case True
    then have sp: "spec_varint v = [of_nat v]" by (simp add: spec_varint.simps)
    with "1.prems" have room: "byteOffset sv < length (dataView sv)" by simp
    from True have w: "IntegerCodec_set codecs_uint8 sv (JNum (int v)) le
                       = Inr (write_bytes sv [of_nat v])"
      using uint8_set_writes [of "int v" sv le] room by simp
    from True "1.prems"(1) show ?thesis
      by (subst VariableLengthUnsignedIntegerCodec_set_loop.simps)
         (simp add: a s w sp set_loop_0)
  next
    case False
    let ?b = "v mod 128 + 128"
    from False have sp: "spec_varint v = of_nat ?b # spec_varint (v div 128)"
      by (simp add: spec_varint.simps [of v])
    with "1.prems" have room: "byteOffset sv < length (dataView sv)"
      and room': "byteOffset (write_bytes sv [of_nat ?b :: byte]) + length (spec_varint (v div 128))
                  \<le> length (dataView (write_bytes sv [of_nat ?b :: byte]))"
      by simp_all
    have o: "js_or (int (v mod 128)) 128 = int ?b"
      using js_or_128 [of "int (v mod 128)"] by simp
    have w: "IntegerCodec_set codecs_uint8 sv (JNum (int ?b)) le
             = Inr (write_bytes sv [of_nat ?b])"
      using uint8_set_writes [of "int ?b" sv le] room by simp
    from False have d: "0 < v div 128" "v div 128 < 2147483648"
      using "1.prems"(2) by (simp_all add: div_greater_zero_iff)
    have ih: "VariableLengthUnsignedIntegerCodec_set_loop (write_bytes sv [of_nat ?b]) (int (v div 128)) le
              = Inr (write_bytes (write_bytes sv [of_nat ?b]) (spec_varint (v div 128)))"
      using "1.IH" [OF False d room'] .
    have app: "write_bytes (write_bytes sv [of_nat ?b]) (spec_varint (v div 128))
               = write_bytes sv (spec_varint v)"
      using write_bytes_append [of sv "[of_nat ?b]" "spec_varint (v div 128)"] "1.prems"(3) sp
      by simp
    from d(1) "1.prems"(1) show ?thesis
      by (subst VariableLengthUnsignedIntegerCodec_set_loop.simps)
         (simp add: a s o w ih app del: of_nat_add)
  qed
qed

lemma VariableLengthUnsignedIntegerCodec_set_writes:
  assumes "v < 2147483648"
    and "byteOffset sv + length (spec_varint v) \<le> length (dataView sv)"
  shows "VariableLengthUnsignedIntegerCodec_set sv (JNum (int v)) le
         = Inr (write_bytes sv (spec_varint v))"
proof (cases "v = 0")
  case True
  with assms(2) have "byteOffset sv < length (dataView sv)" by (simp add: spec_varint.simps)
  from uint8_set_writes [OF _ _ this, of 0 le] True show ?thesis
    by (simp add: VariableLengthUnsignedIntegerCodec_set_def spec_varint.simps)
next
  case False
  with set_loop_writes [OF _ assms, of le] show ?thesis
    by (simp add: VariableLengthUnsignedIntegerCodec_set_def)
qed

lemma js_shl_0: "js_shl 0 n = 0"
  by (simp add: js_shl_def ToInt32_def)

lemma js_or_0: "0 \<le> a \<Longrightarrow> a < 2147483648 \<Longrightarrow> js_or a 0 = a"
  by (simp add: js_or_def ToInt32_id)

lemma shift_bound:
  fixes g len :: int
  assumes "0 < g" "0 \<le> len" "len + g * 2 ^ n < 2147483648"
  shows "n < 32"
proof (rule ccontr)
  assume "\<not> n < 32"
  then have "(2::int) ^ 32 \<le> 2 ^ n" by (intro power_increasing) auto
  moreover have "(2::int) ^ n \<le> g * 2 ^ n" using assms(1) by (simp add: mult_le_cancel_right1)
  ultimately show False using assms(2,3) by simp
qed

lemma uint_byte_of_nat: "n < 256 \<Longrightarrow> uint (of_nat n :: byte) = int n"
  by (simp add: uint_nat unat_of_nat)

lemma get_loop_stop:
  assumes "0 \<le> b" "b < 128"
  shows "VariableLengthUnsignedIntegerCodec_get_loop i b len sv le = Inr (len, sv)"
  using js_and_128_small [OF assms]
  by (subst VariableLengthUnsignedIntegerCodec_get_loop.simps) simp

lemma get_loop_reads:
  assumes "holds_at sv (spec_varint v)" "0 \<le> len" "len < 2 ^ (i * 7)"
    and "len + int v * 2 ^ (i * 7) < 2147483648" "js_and byte 128 \<noteq> 0"
  shows "VariableLengthUnsignedIntegerCodec_get_loop i byte len sv le
         = Inr (len + int v * 2 ^ (i * 7),
                sv\<lparr>byteOffset := byteOffset sv + length (spec_varint v)\<rparr>)"
  using assms
proof (induction v arbitrary: i byte len sv rule: spec_varint.induct)
  case (1 v)
  let ?sv1 = "sv\<lparr>byteOffset := byteOffset sv + 1\<rparr>"
  show ?case
  proof (cases "v < 128")
    case True
    then have sp: "spec_varint v = [of_nat v]" by (simp add: spec_varint.simps)
    with "1.prems"(1) have room: "byteOffset sv < length (dataView sv)"
      and b0: "dataView sv ! byteOffset sv = of_nat v"
      by (simp_all add: holds_at_Cons)
    have rd: "FixedLengthCodec_get codecs_uint8 sv le = Inr (JNum (int v), ?sv1)"
      using uint8_get_reads [OF room, of le] b0 True by (simp add: uint_byte_of_nat)
    have g: "js_and (int v) 127 = int v"
      using js_and_127 [of "int v"] True by simp
    have len': "js_or len (js_shl (int v) (i * 7)) = len + int v * 2 ^ (i * 7)"
    proof (cases "v = 0")
      case True
      with "1.prems"(2,4) show ?thesis by (simp add: js_shl_0 js_or_0)
    next
      case False
      then have "i * 7 < 32" using shift_bound [of "int v" len "i * 7"] "1.prems"(2,4) by simp
      with "1.prems"(2,3,4) show ?thesis by (intro js_or_shl) auto
    qed
    have stop: "VariableLengthUnsignedIntegerCodec_get_loop (i + 1) (int v)
                  (len + int v * 2 ^ (i * 7)) ?sv1 le = Inr (len + int v * 2 ^ (i * 7), ?sv1)"
      using True by (intro get_loop_stop) auto
    from "1.prems"(5) stop show ?thesis
      by (subst VariableLengthUnsignedIntegerCodec_get_loop.simps)
         (simp add: rd g len' sp)
  next
    case False
    let ?b = "v mod 128 + 128"
    from False have sp: "spec_varint v = of_nat ?b # spec_varint (v div 128)"
      by (simp add: spec_varint.simps [of v])
    with "1.prems"(1) have room: "byteOffset sv < length (dataView sv)"
      and b0: "dataView sv ! byteOffset sv = of_nat ?b"
      and rest: "holds_at ?sv1 (spec_varint (v div 128))"
      by (simp_all add: holds_at_Cons)
    have rd: "FixedLengthCodec_get codecs_uint8 sv le = Inr (JNum (int ?b), ?sv1)"
      using uint8_get_reads [OF room, of le] b0 by (simp add: uint_byte_of_nat del: of_nat_add)
    have g: "js_and (int ?b) 127 = int (v mod 128)"
      using js_and_127 [of "int ?b"] by (simp add: zmod_int)
    have vpos: "0 < int v" using False by simp
    have sh: "i * 7 < 32" using shift_bound [OF vpos "1.prems"(2,4)] .
    have vm: "int (v mod 128) * 2 ^ (i * 7) \<le> int v * 2 ^ (i * 7)"
      by (intro mult_right_mono) (simp_all add: mod_le_divisor)
    have lb: "len + int (v mod 128) * 2 ^ (i * 7) < 2147483648"
      using vm "1.prems"(4) by linarith
    have len': "js_or len (js_shl (int (v mod 128)) (i * 7)) = len + int (v mod 128) * 2 ^ (i * 7)"
      using js_or_shl [OF "1.prems"(2,3) _ lb sh] by simp
    let ?len' = "len + int (v mod 128) * 2 ^ (i * 7)"
    have l0: "0 \<le> ?len'" using "1.prems"(2) by simp
    have "v mod 128 < 128" by simp
    then have "int (v mod 128) \<le> 127" by linarith
    then have m: "int (v mod 128) * 2 ^ (i * 7) \<le> 127 * 2 ^ (i * 7)"
      by (intro mult_right_mono) simp_all
    have p: "(2::int) ^ ((i + 1) * 7) = 128 * 2 ^ (i * 7)"
      by (simp add: power_add)
    have l1: "?len' < 2 ^ ((i + 1) * 7)"
      unfolding p using "1.prems"(3) m by linarith
    have "v = v div 128 * 128 + v mod 128" by simp
    then have "int v = int (v div 128) * 128 + int (v mod 128)"
      by linarith
    then have "int v * 2 ^ (i * 7) = int (v div 128) * 2 ^ ((i + 1) * 7) + int (v mod 128) * 2 ^ (i * 7)"
      unfolding p by (simp add: algebra_simps)
    then have e: "?len' + int (v div 128) * 2 ^ ((i + 1) * 7) = len + int v * 2 ^ (i * 7)"
      by simp
    with "1.prems"(4) have l2: "?len' + int (v div 128) * 2 ^ ((i + 1) * 7) < 2147483648"
      by simp
    have cont: "js_and (int ?b) 128 \<noteq> 0"
      using js_and_128_big [of "int (v mod 128)"] by simp
    have ih: "VariableLengthUnsignedIntegerCodec_get_loop (i + 1) (int ?b) ?len' ?sv1 le
              = Inr (?len' + int (v div 128) * 2 ^ ((i + 1) * 7),
                     ?sv1\<lparr>byteOffset := byteOffset ?sv1 + length (spec_varint (v div 128))\<rparr>)"
      using "1.IH" [OF False rest l0 l1 l2 cont] .
    from "1.prems"(5) ih [unfolded e] show ?thesis
      by (subst VariableLengthUnsignedIntegerCodec_get_loop.simps)
         (simp add: rd g len' sp del: of_nat_add)
  qed
qed

lemma VariableLengthUnsignedIntegerCodec_get_reads:
  assumes "holds_at sv (spec_varint v)" "v < 2147483648"
  shows "VariableLengthUnsignedIntegerCodec_get sv le
         = Inr (int v, sv\<lparr>byteOffset := byteOffset sv + length (spec_varint v)\<rparr>)"
proof -
  have "js_and 128 128 \<noteq> 0" by (simp add: js_and_def ToInt32_def)
  from get_loop_reads [OF assms(1), of 0 0 128 le] this assms(2) show ?thesis
    by (simp add: VariableLengthUnsignedIntegerCodec_get_def)
qed

lemma get_loop_step:
  assumes "js_and byte 128 \<noteq> 0" "byteOffset sv < length (dataView sv)"
  shows "VariableLengthUnsignedIntegerCodec_get_loop i byte len sv le
         = VariableLengthUnsignedIntegerCodec_get_loop (i + 1)
             (uint (dataView sv ! byteOffset sv))
             (js_or len (js_shl (js_and (uint (dataView sv ! byteOffset sv)) 127) (i * 7)))
             (sv\<lparr>byteOffset := byteOffset sv + 1\<rparr>) le"
  using assms
  by (subst VariableLengthUnsignedIntegerCodec_get_loop.simps) (simp add: uint8_get_reads)

lemma VariableLength_round_trip_below_2_31:
  assumes "v < 2147483648"
    and "byteOffset sv + VariableLengthUnsignedIntegerCodec_getByteLength v \<le> length (dataView sv)"
  shows "VariableLengthUnsignedIntegerCodec_set sv (JNum (int v)) le
           = Inr (write_bytes sv (spec_varint v))
         \<and> length (spec_varint v) = VariableLengthUnsignedIntegerCodec_getByteLength v
         \<and> VariableLengthUnsignedIntegerCodec_get
              ((write_bytes sv (spec_varint v))\<lparr>byteOffset := byteOffset sv\<rparr>) le
           = Inr (int v, write_bytes sv (spec_varint v))"
proof -
  have room: "byteOffset sv + length (spec_varint v) \<le> length (dataView sv)"
    using assms(2) by (simp add: length_spec_varint)
  let ?sv' = "write_bytes sv (spec_varint v)"
  have "holds_at (?sv'\<lparr>byteOffset := byteOffset sv\<rparr>) (spec_varint v)"
    using holds_at_write_bytes [OF room] .
  from VariableLengthUnsignedIntegerCodec_get_reads [OF this assms(1), of le]
  have "VariableLengthUnsignedIntegerCodec_get (?sv'\<lparr>byteOffset := byteOffset sv\<rparr>) le
        = Inr (int v, ?sv')"
    by (simp add: write_bytes_def)
  with VariableLengthUnsignedIntegerCodec_set_writes [OF assms(1) room, of le] length_spec_varint [of v]
  show ?thesis by simp
qed

lemma getByteLength_ceil:
  "VariableLengthUnsignedIntegerCodec_getByteLength v = max 1 ((bitsNeeded v + 6) div 7)"
proof (cases "v = 0")
  case True
  then show ?thesis by (simp add: getByteLength_small)
next
  case False
  then have "1 \<le> bitsNeeded v" by (simp add: bitsNeeded_pos)
  have "Math_ceil_div (int (bitsNeeded v)) 7 = int ((bitsNeeded v + 6) div 7)"
    unfolding Math_ceil_div_def by linarith
  with False show ?thesis
    by (simp add: VariableLengthUnsignedIntegerCodec_getByteLength_def Math_floor_log2_def
        codecs_uint8_def max_def)
qed

text \<open>
  Claim C6. \<^verbatim>\<open>getByteLength(value)\<close> is \<open>max(1, ceil(bitsNeeded(value) / 7))\<close>, where
  \<open>bitsNeeded\<close> is the position of the highest set bit plus one (\<open>value\<close> is below
  \<open>2 ^ bitsNeeded\<close> and, when positive, at least \<open>2 ^ (bitsNeeded - 1)\<close>). At 0 the
  logarithm is \<^verbatim>\<open>-Infinity\<close> and the maximum with 1 makes the result exactly 1. The
  lengths of 0, 127, 128, 16383 and 16384 are 1, 1, 2, 2 and 3.
\<close>

theorem VariableLength_getByteLength_formula:
  "VariableLengthUnsignedIntegerCodec_getByteLength v = max 1 ((bitsNeeded v + 6) div 7)
   \<and> v < 2 ^ bitsNeeded v \<and> (0 < v \<longrightarrow> 2 ^ (bitsNeeded v - 1) \<le> v)
   \<and> Math_floor_log2 0 = None
   \<and> VariableLengthUnsignedIntegerCodec_getByteLength 0 = 1
   \<and> VariableLengthUnsignedIntegerCodec_getByteLength 127 = 1
   \<and> VariableLengthUnsignedIntegerCodec_getByteLength 128 = 2
   \<and> VariableLengthUnsignedIntegerCodec_getByteLength 16383 = 2
   \<and> VariableLengthUnsignedIntegerCodec_getByteLength 16384 = 3"
proof -
  have ev: "VariableLengthUnsignedIntegerCodec_getByteLength 0 = 1"
    "VariableLengthUnsignedIntegerCodec_getByteLength 127 = 1"
    "VariableLengthUnsignedIntegerCodec_getByteLength 128 = 2"
    "VariableLengthUnsignedIntegerCodec_getByteLength 16383 = 2"
    "VariableLengthUnsignedIntegerCodec_getByteLength 16384 = 3"
    by (simp_all add: VariableLengthUnsignedIntegerCodec_getByteLength_def Math_floor_log2_def
        bitsNeeded.simps Math_ceil_div_def codecs_uint8_def)
  with getByteLength_ceil [of v] bitsNeeded_upper [of v] bitsNeeded_lower [of v]
  show ?thesis by (simp add: Math_floor_log2_def)
qed

theorem VariableLength_getByteLength_formula_witness:
  "(0::nat) < 300 \<and> bitsNeeded 300 = 9 \<and> (2::nat) ^ (9 - 1) \<le> 300
   \<and> VariableLengthUnsignedIntegerCodec_getByteLength 300 = 2"
proof -
  have b: "bitsNeeded 300 = 9" by (simp add: bitsNeeded.simps)
  from VariableLength_getByteLength_formula [of 300] show ?thesis
    unfolding b by simp
qed

text \<open>
  Claim C1 says that decoding what \<^verbatim>\<open>set\<close> wrote yields the value again, and that
  \<^verbatim>\<open>set\<close> writes \<^verbatim>\<open>getByteLength(v)\<close> bytes, for every \<open>v\<close> up to \<open>2 ^ 32 - 1\<close>.
  \<open>VariableLength_round_trip_below_2_31\<close> above proves both for every \<open>v\<close> below
  \<open>2 ^ 31\<close>. At \<open>v = 2 ^ 31\<close> the code does otherwise: \<^verbatim>\<open>getByteLength\<close> is 5, but
  \<^verbatim>\<open>remainder >>= 7\<close> is a signed shift that makes the remainder negative, so \<^verbatim>\<open>set\<close>
  writes the single byte 128, with the continuation flag set and no group after it,
  and decoding the five-byte buffer yields 0.
\<close>

theorem VariableLength_round_trip_fails_at_2_31:
  "VariableLengthUnsignedIntegerCodec_getByteLength 2147483648 = 5
   \<and> VariableLengthUnsignedIntegerCodec_set (StreamView_create 5) (JNum 2147483648) False
       = Inr \<lparr>dataView = [128, 0, 0, 0, 0], byteOffset = 1\<rparr>
   \<and> VariableLengthUnsignedIntegerCodec_get \<lparr>dataView = [128, 0, 0, 0, 0], byteOffset = 0\<rparr> False
       = Inr (0, \<lparr>dataView = [128, 0, 0, 0, 0], byteOffset = 2\<rparr>)"
proof -
  have 1: "VariableLengthUnsignedIntegerCodec_getByteLength 2147483648 = 5"
    by (simp add: VariableLengthUnsignedIntegerCodec_getByteLength_def Math_floor_log2_def
        bitsNeeded.simps Math_ceil_div_def codecs_uint8_def)
  have ops: "js_and 2147483648 127 = 0" "js_sar 2147483648 7 = - 16777216" "js_or 0 128 = 128"
    by (simp_all add: js_and_def js_sar_def js_or_def ToInt32_def drop_bit_eq_div)
  have cr: "StreamView_create 5 = \<lparr>dataView = [0, 0, 0, 0, 0], byteOffset = 0\<rparr>"
    by (simp add: StreamView_create_def numeral_eq_Suc)
  have w: "IntegerCodec_set codecs_uint8 \<lparr>dataView = [0, 0, 0, 0, 0], byteOffset = 0\<rparr> (JNum 128) False
           = Inr \<lparr>dataView = [128, 0, 0, 0, 0], byteOffset = 1\<rparr>"
    by (simp add: uint8_set_writes write_bytes_def)
  have stop: "VariableLengthUnsignedIntegerCodec_set_loop sv (- 16777216) False = Inr sv" for sv
    by (simp add: VariableLengthUnsignedIntegerCodec_set_loop.simps)
  have 2: "VariableLengthUnsignedIntegerCodec_set (StreamView_create 5) (JNum 2147483648) False
           = Inr \<lparr>dataView = [128, 0, 0, 0, 0], byteOffset = 1\<rparr>"
    unfolding cr VariableLengthUnsignedIntegerCodec_set_def
    by (subst VariableLengthUnsignedIntegerCodec_set_loop.simps) (simp add: ops w stop)
  have a: "js_and 128 128 \<noteq> 0" "js_and 128 127 = 0" "js_and 0 127 = 0"
          "js_shl 0 n = 0" "js_or 0 0 = 0" for n
    by (simp_all add: js_and_def js_or_def js_shl_def ToInt32_def)
  have 3: "VariableLengthUnsignedIntegerCodec_get \<lparr>dataView = [128, 0, 0, 0, 0], byteOffset = 0\<rparr> False
       = Inr (0, \<lparr>dataView = [128, 0, 0, 0, 0], byteOffset = 2\<rparr>)"
    by (simp add: VariableLengthUnsignedIntegerCodec_get_def get_loop_step get_loop_stop a)
  from 1 2 3 show ?thesis by blast
qed

section \<open>Boolean arrays\<close>

lemma pack_val_bounds: "0 \<le> pack_val bs \<and> pack_val bs < 2 ^ length bs"
  by (induction bs) auto

lemma pack_val_snoc: "pack_val (bs @ [b]) = pack_val bs + (if b then 1 else 0) * 2 ^ length bs"
  by (induction bs) auto

lemma pack_val_byte:
  assumes "length bs \<le> 8"
  shows "0 \<le> pack_val bs" "pack_val bs \<le> 255" "pack_val bs < 2147483648"
proof -
  have "(2::int) ^ length bs \<le> 2 ^ 8" using assms by (intro power_increasing) auto
  with pack_val_bounds [of bs] show "0 \<le> pack_val bs" "pack_val bs \<le> 255" "pack_val bs < 2147483648"
    by auto
qed

lemma pack_val_div_mod:
  "j < length bs \<Longrightarrow> pack_val bs div 2 ^ j mod 2 = (if bs ! j then 1 else 0)"
proof (induction bs arbitrary: j)
  case Nil
  then show ?case by simp
next
  case (Cons b bs)
  show ?case
  proof (cases j)
    case 0
    then show ?thesis by simp
  next
    case (Suc j')
    have "((if b then 1 else 0) + 2 * pack_val bs) div 2 = pack_val bs" by simp
    then have "pack_val (b # bs) div 2 ^ j = pack_val bs div 2 ^ j'"
      unfolding Suc by (simp add: zdiv_zmult2_eq)
    with Cons Suc show ?thesis by simp
  qed
qed

lemma pack_val_bit_test:
  assumes "length bs \<le> 8" "j < length bs"
  shows "(js_and (js_sar (pack_val bs) j) 1 \<noteq> 0) = bs ! j"
proof -
  note b = pack_val_byte [OF assms(1)]
  from assms have j: "j mod 32 = j" by simp
  have s: "js_sar (pack_val bs) j = pack_val bs div 2 ^ j"
    using b by (simp add: js_sar_def ToInt32_id j drop_bit_eq_div)
  have "0 \<le> pack_val bs div 2 ^ j" using b(1) by (simp add: pos_imp_zdiv_nonneg_iff)
  moreover have "pack_val bs div 2 ^ j \<le> pack_val bs"
    using zdiv_mono2 [of "pack_val bs" 1 "2 ^ j"] b(1) by simp
  ultimately have r: "0 \<le> pack_val bs div 2 ^ j" "pack_val bs div 2 ^ j < 2147483648"
    using b(3) by auto
  have "js_and (pack_val bs div 2 ^ j) 1 = pack_val bs div 2 ^ j mod 2"
    using r by (simp add: js_and_def ToInt32_id and_one_eq)
  with s pack_val_div_mod [OF assms(2)] show ?thesis by simp
qed

lemma pack_bits_Nil [simp]: "pack_bits [] = []"
  by (simp add: pack_bits.simps)

lemma pack_bits_nonempty:
  "bs \<noteq> [] \<Longrightarrow> pack_bits bs = word_of_int (pack_val (take 8 bs)) # pack_bits (drop 8 bs)"
  by (subst pack_bits.simps) simp

lemma length_pack_bits: "length (pack_bits bs) = (length bs + 7) div 8"
proof (induction bs rule: pack_bits.induct)
  case (1 bs)
  show ?case
  proof (cases "bs = []")
    case True
    then show ?thesis by simp
  next
    case False
    then have "0 < length bs" by simp
    then have "Suc ((length bs - 8 + 7) div 8) = (length bs + 7) div 8"
    proof (cases "8 \<le> length bs")
      case True
      then have "length bs + 7 = (length bs - 8 + 7) + 8" by simp
      then show ?thesis by (metis div_add_self2 zero_neq_numeral Suc_eq_plus1)
    next
      case False
      from \<open>0 < length bs\<close> have "length bs + 7 = (length bs - 1) + 8" by simp
      then have "(length bs + 7) div 8 = (length bs - 1) div 8 + 1"
        by (metis div_add_self2 zero_neq_numeral)
      with False show ?thesis by simp
    qed
    with 1 False show ?thesis
      by (simp add: pack_bits_nonempty)
  qed
qed

lemma ceil_div_8: "nat (Math_ceil_div (int n) 8) = (n + 7) div 8"
  unfolding Math_ceil_div_def by linarith

lemma pack_bits_full:
  assumes "length acc = 8"
  shows "pack_bits (acc @ bs) = word_of_int (pack_val acc) # pack_bits bs"
  using assms by (cases acc) (simp_all add: pack_bits_nonempty)

lemma pack_bits_single:
  assumes "0 < length acc" "length acc \<le> 8"
  shows "pack_bits acc = [word_of_int (pack_val acc)]"
  using assms by (simp add: pack_bits_nonempty)

lemma set_loop_flush:
  assumes "length acc \<le> 8"
    and "byteOffset sv + length (pack_bits (acc @ bs)) \<le> length (dataView sv)"
  shows "BooleanArrayCodec_set_flush le (BooleanArrayCodec_set_loop (map JBool bs) sv (pack_val acc) (length acc) le)
         = Inr (write_bytes sv (pack_bits (acc @ bs)))"
  using assms
proof (induction bs arbitrary: acc sv)
  case Nil
  show ?case
  proof (cases "acc = []")
    case True
    then show ?thesis by (simp add: BooleanArrayCodec_set_flush_def)
  next
    case False
    then have pos: "0 < length acc" by simp
    note sp = pack_bits_single [OF pos Nil.prems(1)]
    from Nil.prems(2) sp have room: "byteOffset sv < length (dataView sv)" by simp
    from uint8_set_writes [OF pack_val_byte(1,2) [OF Nil.prems(1)] room, of le] pos sp
    show ?thesis by (simp add: BooleanArrayCodec_set_flush_def)
  qed
next
  case (Cons b bs)
  show ?case
  proof (cases "length acc = 8")
    case True
    note pf = pack_bits_full [OF True, of "b # bs"]
    from Cons.prems(2) pf have room: "byteOffset sv < length (dataView sv)" by simp
    let ?sv' = "write_bytes sv [word_of_int (pack_val acc) :: byte]"
    have w: "IntegerCodec_set codecs_uint8 sv (JNum (pack_val acc)) le = Inr ?sv'"
      using uint8_set_writes [OF pack_val_byte(1,2) [OF Cons.prems(1)] room] .
    have one: "js_or 0 (js_shl (if b then 1 else 0) 0) = pack_val [b]"
      by (simp add: js_or_def js_shl_def ToInt32_def)
    have room': "byteOffset ?sv' + length (pack_bits ([b] @ bs)) \<le> length (dataView ?sv')"
      using Cons.prems(2) pf room by simp
    have ih: "BooleanArrayCodec_set_flush le (BooleanArrayCodec_set_loop (map JBool bs) ?sv' (pack_val [b]) (length [b]) le)
              = Inr (write_bytes ?sv' (pack_bits ([b] @ bs)))"
      using Cons.IH [of "[b]" ?sv'] room' by simp
    have app: "write_bytes ?sv' (pack_bits ([b] @ bs)) = write_bytes sv (pack_bits (acc @ b # bs))"
      using write_bytes_append [of sv "[word_of_int (pack_val acc)]" "pack_bits (b # bs)"]
        Cons.prems(2) pf by simp
    from ih show ?thesis
      unfolding app by (simp add: True w one)
  next
    case False
    with Cons.prems(1) have lt: "length acc < 8" by simp
    have "js_or (pack_val acc) (js_shl (if b then 1 else 0) (length acc))
          = pack_val acc + (if b then 1 else 0) * 2 ^ length acc"
    proof (rule js_or_shl)
      show "0 \<le> pack_val acc" "pack_val acc < 2 ^ length acc"
        using pack_val_bounds [of acc] by simp_all
      show "(0::int) \<le> (if b then 1 else 0)" by simp
      have "pack_val (acc @ [b]) < 2147483648"
        using pack_val_byte(3) [of "acc @ [b]"] lt by simp
      then show "pack_val acc + (if b then 1 else 0) * 2 ^ length acc < 2147483648"
        by (simp only: pack_val_snoc)
      show "length acc < 32" using lt by simp
    qed
    then have step: "js_or (pack_val acc) (js_shl (if b then 1 else 0) (length acc))
                     = pack_val (acc @ [b])"
      by (simp only: pack_val_snoc)
    have ih: "BooleanArrayCodec_set_flush le (BooleanArrayCodec_set_loop (map JBool bs) sv (pack_val (acc @ [b]))
                (length (acc @ [b])) le)
              = Inr (write_bytes sv (pack_bits ((acc @ [b]) @ bs)))"
      using Cons.IH [of "acc @ [b]" sv] Cons.prems(2) lt by simp
    from ih show ?thesis
      by (simp add: False step)
  qed
qed

lemma get_bits_reads:
  assumes "length ch \<le> 8" "j \<le> length ch"
    and "length ch = 8 \<or> len - i = int (length ch - j)"
    and "int (length ch - j) \<le> len - i"
  shows "BooleanArrayCodec_get_bits (pack_val ch) j i len values
         = (values @ map JBool (drop j ch), i + int (length ch - j))"
  using assms(2,3,4)
proof (induction "length ch - j" arbitrary: j i "values")
  case 0
  then have j: "j = length ch" by simp
  with 0 assms(1) have "\<not> (j < 8 \<and> i < len)" by auto
  with j show ?case
    by (subst BooleanArrayCodec_get_bits.simps) auto
next
  case (Suc n)
  then have jl: "j < length ch" by simp
  with assms(1) have j8: "j < 8" by simp
  from Suc.prems(3) jl have il: "i < len" by simp
  have n: "n = length ch - (j + 1)" using Suc.hyps(2) by simp
  have ih: "BooleanArrayCodec_get_bits (pack_val ch) (j + 1) (i + 1) len
              (values @ [JBool (ch ! j)])
            = ((values @ [JBool (ch ! j)]) @ map JBool (drop (j + 1) ch),
               (i + 1) + int (length ch - (j + 1)))"
    using Suc.hyps(1) [OF n, of "i + 1"] Suc.prems jl by auto
  have d: "drop j ch = ch ! j # drop (j + 1) ch"
    using jl by (simp add: Cons_nth_drop_Suc)
  have e: "(i + 1) + int (length ch - (j + 1)) = i + int (length ch - j)"
    using jl by linarith
  from j8 il ih [unfolded e] show ?case
    by (subst BooleanArrayCodec_get_bits.simps)
       (auto simp: pack_val_bit_test [OF assms(1) jl] d)
qed

lemma uint_pack_val:
  assumes "length ch \<le> 8"
  shows "uint (word_of_int (pack_val ch) :: byte) = pack_val ch"
  using pack_val_byte [OF assms] by (simp add: uint_word_of_int mod_pos_pos_trivial)

lemma get_bytes_reads:
  assumes "holds_at sv (pack_bits bs)" "len = i + int (length bs)"
  shows "BooleanArrayCodec_get_bytes (length (pack_bits bs)) sv i len values le
         = Inr (values @ map JBool bs,
                sv\<lparr>byteOffset := byteOffset sv + length (pack_bits bs)\<rparr>)"
  using assms
proof (induction bs arbitrary: sv i "values" rule: pack_bits.induct)
  case (1 bs)
  show ?case
  proof (cases "bs = []")
    case True
    then show ?thesis by simp
  next
    case False
    let ?ch = "take 8 bs"
    let ?sv1 = "sv\<lparr>byteOffset := byteOffset sv + 1\<rparr>"
    note pb = pack_bits_nonempty [OF False]
    have ch8: "length ?ch \<le> 8" by simp
    from "1.prems"(1) pb have room: "byteOffset sv < length (dataView sv)"
      and b0: "dataView sv ! byteOffset sv = word_of_int (pack_val ?ch)"
      and rest: "holds_at ?sv1 (pack_bits (drop 8 bs))"
      by (simp_all add: holds_at_Cons)
    have rd: "FixedLengthCodec_get codecs_uint8 sv le = Inr (JNum (pack_val ?ch), ?sv1)"
      using uint8_get_reads [OF room, of le] b0 by (simp add: uint_pack_val)
    have c: "length ?ch = 8 \<or> len - i = int (length ?ch - 0)"
      using "1.prems"(2) by (cases "8 \<le> length bs") (simp_all add: min_def)
    have c': "int (length ?ch - 0) \<le> len - i"
      using "1.prems"(2) by simp
    have gb: "BooleanArrayCodec_get_bits (pack_val ?ch) 0 i len values
              = (values @ map JBool ?ch, i + int (length ?ch))"
      using get_bits_reads [OF ch8 _ c c'] by simp
    have len': "len = (i + int (length ?ch)) + int (length (drop 8 bs))"
      using "1.prems"(2) by (simp add: min_def)
    have ih: "BooleanArrayCodec_get_bytes (length (pack_bits (drop 8 bs))) ?sv1
                (i + int (length ?ch)) len (values @ map JBool ?ch) le
              = Inr ((values @ map JBool ?ch) @ map JBool (drop 8 bs),
                     ?sv1\<lparr>byteOffset := byteOffset ?sv1 + length (pack_bits (drop 8 bs))\<rparr>)"
      using "1.IH" [OF False rest len'] .
    have m: "map JBool ?ch @ map JBool (drop 8 bs) = map JBool bs"
      by (simp flip: map_append)
    from ih show ?thesis
      by (simp add: pb rd gb m)
  qed
qed

lemma pack_bits_nth:
  "k < length (pack_bits bs) \<Longrightarrow>
   pack_bits bs ! k = word_of_int (pack_val (take 8 (drop (8 * k) bs)))"
proof (induction k arbitrary: bs)
  case 0
  then have "bs \<noteq> []" by auto
  then show ?case by (simp add: pack_bits_nonempty)
next
  case (Suc k)
  then have ne: "bs \<noteq> []" by auto
  with Suc.prems have "k < length (pack_bits (drop 8 bs))" by (simp add: pack_bits_nonempty)
  from Suc.IH [OF this] ne show ?case
    by (simp add: pack_bits_nonempty add.commute)
qed

lemma bit_pack_val:
  assumes "length ch \<le> 8" "j < 8"
  shows "bit (word_of_int (pack_val ch) :: byte) j \<longleftrightarrow> j < length ch \<and> ch ! j"
proof -
  have w: "bit (word_of_int (pack_val ch) :: byte) j \<longleftrightarrow> bit (pack_val ch) j"
    using assms(2) by (simp add: bit_word_of_int_iff)
  have o: "bit (pack_val ch) j \<longleftrightarrow> odd (pack_val ch div 2 ^ j)"
    by (simp add: bit_iff_odd)
  show ?thesis
  proof (cases "j < length ch")
    case True
    from pack_val_div_mod [OF True] have "odd (pack_val ch div 2 ^ j) \<longleftrightarrow> ch ! j"
      by (auto simp: odd_iff_mod_2_eq_one split: if_splits)
    with True show ?thesis unfolding w o by simp
  next
    case False
    then have "(2::int) ^ length ch \<le> 2 ^ j" by (intro power_increasing) auto
    with pack_val_bounds [of ch] have "0 \<le> pack_val ch" "pack_val ch < 2 ^ j"
      by linarith+
    then have "pack_val ch div 2 ^ j = 0"
      by (rule div_pos_pos_trivial)
    with False show ?thesis unfolding w o by simp
  qed
qed

lemma bit_pack_bits:
  assumes "k < length (pack_bits bs)" "j < 8"
  shows "bit (pack_bits bs ! k) j \<longleftrightarrow> 8 * k + j < length bs \<and> bs ! (8 * k + j)"
proof -
  let ?ch = "take 8 (drop (8 * k) bs)"
  have "bit (pack_bits bs ! k) j \<longleftrightarrow> j < length ?ch \<and> ?ch ! j"
    using bit_pack_val [of ?ch j] assms(2) by (simp add: pack_bits_nth [OF assms(1)])
  also have "\<dots> \<longleftrightarrow> 8 * k + j < length bs \<and> bs ! (8 * k + j)"
    using assms(2) by (auto simp: min_def)
  finally show ?thesis .
qed

lemma BooleanArrayCodec_set_writes:
  assumes "length bs < 2147483648"
    and "byteOffset sv + length (spec_varint (length bs) @ pack_bits bs) \<le> length (dataView sv)"
  shows "BooleanArrayCodec_set sv (JArr (map JBool bs)) le
         = Inr (write_bytes sv (spec_varint (length bs) @ pack_bits bs))"
proof -
  let ?X = "spec_varint (length bs)"
  have roomX: "byteOffset sv + length ?X \<le> length (dataView sv)" using assms(2) by simp
  have s1: "VariableLengthUnsignedIntegerCodec_set sv (JNum (int (length bs))) le
            = Inr (write_bytes sv ?X)"
    using VariableLengthUnsignedIntegerCodec_set_writes [OF assms(1) roomX] .
  have roomY: "byteOffset (write_bytes sv ?X) + length (pack_bits ([] @ bs))
               \<le> length (dataView (write_bytes sv ?X))"
    using assms(2) roomX by simp
  have "BooleanArrayCodec_set_flush le
          (BooleanArrayCodec_set_loop (map JBool bs) (write_bytes sv ?X) (pack_val []) (length ([]::bool list)) le)
        = Inr (write_bytes (write_bytes sv ?X) (pack_bits ([] @ bs)))"
    by (rule set_loop_flush [OF _ roomY]) simp
  then have s2: "BooleanArrayCodec_set_flush le
          (BooleanArrayCodec_set_loop (map JBool bs) (write_bytes sv ?X) 0 0 le)
        = Inr (write_bytes sv (?X @ pack_bits bs))"
    using write_bytes_append [of sv ?X "pack_bits bs"] assms(2) by simp
  show ?thesis
    by (simp add: BooleanArrayCodec_set_def s1 s2)
qed

lemma BooleanArrayCodec_get_reads:
  assumes "length bs < 2147483648"
    and "holds_at sv (spec_varint (length bs) @ pack_bits bs)"
  shows "BooleanArrayCodec_get sv le
         = Inr (JArr (map JBool bs),
                sv\<lparr>byteOffset := byteOffset sv + length (spec_varint (length bs) @ pack_bits bs)\<rparr>)"
proof -
  let ?X = "spec_varint (length bs)"
  let ?sv1 = "sv\<lparr>byteOffset := byteOffset sv + length ?X\<rparr>"
  from assms(2) have hX: "holds_at sv ?X" and hY: "holds_at ?sv1 (pack_bits bs)"
    by (simp_all add: holds_at_append)
  have g1: "VariableLengthUnsignedIntegerCodec_get sv le = Inr (int (length bs), ?sv1)"
    using VariableLengthUnsignedIntegerCodec_get_reads [OF hX assms(1)] .
  have n: "nat (Math_ceil_div (int (length bs)) 8) = length (pack_bits bs)"
    by (simp add: ceil_div_8 length_pack_bits)
  have g2: "BooleanArrayCodec_get_bytes (length (pack_bits bs)) ?sv1 0 (int (length bs)) [] le
            = Inr ([] @ map JBool bs, ?sv1\<lparr>byteOffset := byteOffset ?sv1 + length (pack_bits bs)\<rparr>)"
    by (rule get_bytes_reads [OF hY]) simp
  show ?thesis
    by (simp add: BooleanArrayCodec_get_def g1 n g2 add.assoc)
qed

text \<open>
  For every list of booleans whose count is below \<open>2 ^ 31\<close> (where the count prefix
  round-trips), the boolean array codec measures and writes the variable-length count
  followed by exactly \<open>ceil(count / 8)\<close> bytes: bit \<open>j\<close> of byte \<open>k\<close> of that region is
  element \<open>8 * k + j\<close>, and the bits past the last element are 0. Decoding what was
  written returns exactly the list, in order. Nine booleans make a two-byte bit region.
\<close>

lemma BooleanArrayCodec_layout_below_2_31:
  assumes "length bs < 2147483648"
    and "byteOffset sv + (VariableLengthUnsignedIntegerCodec_getByteLength (length bs)
                          + (length bs + 7) div 8) \<le> length (dataView sv)"
  shows "BooleanArrayCodec_getByteLength (JArr (map JBool bs))
           = Inr (VariableLengthUnsignedIntegerCodec_getByteLength (length bs)
                  + (length bs + 7) div 8)
       \<and> BooleanArrayCodec_set sv (JArr (map JBool bs)) le
           = Inr (write_bytes sv (spec_varint (length bs) @ pack_bits bs))
       \<and> length (spec_varint (length bs))
           = VariableLengthUnsignedIntegerCodec_getByteLength (length bs)
       \<and> length (pack_bits bs) = (length bs + 7) div 8
       \<and> (\<forall>k j. k < length (pack_bits bs) \<longrightarrow> j < 8 \<longrightarrow>
              (bit (pack_bits bs ! k) j \<longleftrightarrow> 8 * k + j < length bs \<and> bs ! (8 * k + j)))
       \<and> BooleanArrayCodec_get
             ((write_bytes sv (spec_varint (length bs) @ pack_bits bs))
                \<lparr>byteOffset := byteOffset sv\<rparr>) le
           = Inr (JArr (map JBool bs), write_bytes sv (spec_varint (length bs) @ pack_bits bs))
       \<and> (length bs = 9 \<longrightarrow> length (pack_bits bs) = 2)"
proof -
  let ?W = "spec_varint (length bs) @ pack_bits bs"
  have len: "length ?W = VariableLengthUnsignedIntegerCodec_getByteLength (length bs)
                         + (length bs + 7) div 8"
    by (simp add: length_spec_varint length_pack_bits)
  have room: "byteOffset sv + length ?W \<le> length (dataView sv)"
    using assms(2) unfolding len .
  have 1: "BooleanArrayCodec_getByteLength (JArr (map JBool bs))
           = Inr (VariableLengthUnsignedIntegerCodec_getByteLength (length bs)
                  + (length bs + 7) div 8)"
    by (simp add: BooleanArrayCodec_getByteLength_def ceil_div_8 codecs_uint8_def)
  have 2: "BooleanArrayCodec_set sv (JArr (map JBool bs)) le = Inr (write_bytes sv ?W)"
    using BooleanArrayCodec_set_writes [OF assms(1) room] .
  have 5: "\<forall>k j. k < length (pack_bits bs) \<longrightarrow> j < 8 \<longrightarrow>
              (bit (pack_bits bs ! k) j \<longleftrightarrow> 8 * k + j < length bs \<and> bs ! (8 * k + j))"
    using bit_pack_bits by blast
  have h: "holds_at ((write_bytes sv ?W)\<lparr>byteOffset := byteOffset sv\<rparr>) ?W"
    using holds_at_write_bytes [OF room] .
  have 6: "BooleanArrayCodec_get ((write_bytes sv ?W)\<lparr>byteOffset := byteOffset sv\<rparr>) le
           = Inr (JArr (map JBool bs), write_bytes sv ?W)"
    using BooleanArrayCodec_get_reads [OF assms(1) h, of le] by (simp add: write_bytes_def)
  have 7: "length bs = 9 \<longrightarrow> length (pack_bits bs) = 2"
    by (simp add: length_pack_bits)
  from 1 2 5 6 7 length_spec_varint [of "length bs"] length_pack_bits [of bs]
  show ?thesis by blast
qed

lemma BooleanArrayCodec_nine_booleans:
  "BooleanArrayCodec_set (StreamView_create 3)
     (JArr (map JBool [True, False, True, True, False, False, False, False, True])) False
   = Inr \<lparr>dataView = [9, 13, 1], byteOffset = 3\<rparr>
   \<and> BooleanArrayCodec_get \<lparr>dataView = [9, 13, 1], byteOffset = 0\<rparr> False
   = Inr (JArr (map JBool [True, False, True, True, False, False, False, False, True]),
          \<lparr>dataView = [9, 13, 1], byteOffset = 3\<rparr>)
   \<and> pack_bits [True, False, True, True, False, False, False, False, True] = [13, 1]"
proof -
  let ?bs = "[True, False, True, True, False, False, False, False, True]"
  have n: "length ?bs < 2147483648" by simp
  have g: "VariableLengthUnsignedIntegerCodec_getByteLength (length ?bs) = 1"
    by (simp add: getByteLength_small)
  have room: "byteOffset (StreamView_create 3)
              + (VariableLengthUnsignedIntegerCodec_getByteLength (length ?bs)
                 + (length ?bs + 7) div 8) \<le> length (dataView (StreamView_create 3))"
    unfolding g by (simp add: StreamView_create_def)
  have w: "spec_varint (length ?bs) @ pack_bits ?bs = [9, 13, 1]"
    by (simp add: spec_varint.simps pack_bits.simps)
  have cr: "write_bytes (StreamView_create 3) [9, 13, 1] = \<lparr>dataView = [9, 13, 1], byteOffset = 3\<rparr>"
    by (simp add: write_bytes_def StreamView_create_def)
  have p: "pack_bits ?bs = [13, 1]"
    by (simp add: pack_bits.simps)
  from BooleanArrayCodec_layout_below_2_31 [OF n room, of False] p
  show ?thesis unfolding w cr by (simp add: StreamView_create_def)
qed

lemma getByteLength_2_31: "VariableLengthUnsignedIntegerCodec_getByteLength 2147483648 = 5"
  by (simp add: VariableLengthUnsignedIntegerCodec_getByteLength_def Math_floor_log2_def
      bitsNeeded.simps Math_ceil_div_def codecs_uint8_def)

lemma VariableLength_set_2_31:
  assumes "byteOffset sv < length (dataView sv)"
  shows "VariableLengthUnsignedIntegerCodec_set sv (JNum 2147483648) le
         = Inr (write_bytes sv [128])"
proof -
  have ops: "js_and 2147483648 127 = 0" "js_sar 2147483648 7 = - 16777216" "js_or 0 128 = 128"
    by (simp_all add: js_and_def js_sar_def js_or_def ToInt32_def drop_bit_eq_div)
  have w: "IntegerCodec_set codecs_uint8 sv (JNum 128) le = Inr (write_bytes sv [128])"
    using uint8_set_writes [of 128 sv le] assms by simp
  have stop: "VariableLengthUnsignedIntegerCodec_set_loop sv' (- 16777216) le = Inr sv'" for sv'
    by (simp add: VariableLengthUnsignedIntegerCodec_set_loop.simps)
  show ?thesis
    unfolding VariableLengthUnsignedIntegerCodec_set_def
    by (subst VariableLengthUnsignedIntegerCodec_set_loop.simps) (simp add: ops w stop)
qed

lemma VariableLength_get_128_0:
  assumes "holds_at sv [128, 0]"
  shows "VariableLengthUnsignedIntegerCodec_get sv le
         = Inr (0, sv\<lparr>byteOffset := byteOffset sv + 2\<rparr>)"
proof -
  have a: "js_and 128 128 \<noteq> 0" "js_and 128 127 = 0" "js_and 0 127 = 0"
          "js_shl 0 n = 0" "js_or 0 0 = 0" for n
    by (simp_all add: js_and_def js_or_def js_shl_def ToInt32_def)
  from assms have r: "byteOffset sv < length (dataView sv)" "dataView sv ! byteOffset sv = 128"
    "byteOffset sv + 1 < length (dataView sv)" "dataView sv ! (byteOffset sv + 1) = 0"
    by (auto simp: holds_at_Cons)
  show ?thesis
    using r by (simp add: VariableLengthUnsignedIntegerCodec_get_def get_loop_step get_loop_stop a)
qed

lemma pack_bits_replicate_False: "pack_bits (replicate (8 * n) False) = replicate n 0"
proof (induction n)
  case 0
  show ?case by simp
next
  case (Suc n)
  have v: "pack_val (replicate m False) = 0" for m by (induction m) simp_all
  have "replicate (8 * Suc n) False = replicate 8 False @ replicate (8 * n) False"
    by (simp add: replicate_add [symmetric])
  moreover have "pack_bits (replicate 8 False @ replicate (8 * n) False)
             = word_of_int (pack_val (replicate 8 False)) # pack_bits (replicate (8 * n) False)"
    by (rule pack_bits_full) simp
  ultimately have "pack_bits (replicate (8 * Suc n) False)
             = word_of_int (pack_val (replicate 8 False)) # pack_bits (replicate (8 * n) False)"
    by (simp only:)
  with Suc.IH v show ?case by simp
qed

text \<open>
  Claim C8 says, for every list of booleans, that the codec writes a variable-length
  count followed by \<open>ceil(count / 8)\<close> bytes of flags, and that decoding returns the
  list. \<open>BooleanArrayCodec_layout_below_2_31\<close> above proves that, with the bit order and
  the padding, for every list of fewer than \<open>2 ^ 31\<close> elements. For a list of \<open>2 ^ 31\<close>
  elements the code does otherwise, because \<^verbatim>\<open>set\<close> of the variable-length codec shifts
  the count as a signed 32-bit integer: \<^verbatim>\<open>getByteLength\<close> is \<open>5 + 2 ^ 28\<close>, but \<^verbatim>\<open>set\<close>
  writes the count as the single byte 128, where its encoding is the five bytes 128,
  128, 128, 128, 8, and then the \<open>2 ^ 28\<close> bytes of flags; decoding that buffer reads the
  count 0 and returns the empty list.
\<close>

theorem BooleanArrayCodec_fails_at_2_31_elements:
  "BooleanArrayCodec_getByteLength (JArr (replicate 2147483648 (JBool False))) = Inr 268435461
   \<and> BooleanArrayCodec_set (StreamView_create 268435461)
         (JArr (replicate 2147483648 (JBool False))) False
       = Inr \<lparr>dataView = 128 # replicate 268435460 0, byteOffset = 268435457\<rparr>
   \<and> spec_varint 2147483648 = [128, 128, 128, 128, 8]
   \<and> BooleanArrayCodec_get \<lparr>dataView = 128 # replicate 268435460 0, byteOffset = 0\<rparr> False
       = Inr (JArr [], \<lparr>dataView = 128 # replicate 268435460 0, byteOffset = 2\<rparr>)"
proof -
  let ?bs = "replicate 2147483648 False"
  let ?sv = "StreamView_create 268435461"
  have vs: "replicate 2147483648 (JBool False) = map JBool ?bs" by simp
  have 1: "BooleanArrayCodec_getByteLength (JArr (replicate 2147483648 (JBool False)))
           = Inr 268435461"
    by (simp add: BooleanArrayCodec_getByteLength_def getByteLength_2_31 Math_ceil_div_def
        codecs_uint8_def)
  have pb: "pack_bits ?bs = replicate 268435456 0"
    using pack_bits_replicate_False [of 268435456] by simp
  have s1: "VariableLengthUnsignedIntegerCodec_set ?sv (JNum (int 2147483648)) False
            = Inr (write_bytes ?sv [128])"
    using VariableLength_set_2_31 [of ?sv False] by (simp add: StreamView_create_def)
  have room: "byteOffset (write_bytes ?sv [128]) + length (pack_bits ([] @ ?bs))
              \<le> length (dataView (write_bytes ?sv [128]))"
    by (simp add: pb StreamView_create_def)
  have "BooleanArrayCodec_set_flush False
          (BooleanArrayCodec_set_loop (map JBool ?bs) (write_bytes ?sv [128]) (pack_val [])
             (length ([]::bool list)) False)
        = Inr (write_bytes (write_bytes ?sv [128]) (pack_bits ([] @ ?bs)))"
    by (rule set_loop_flush [OF _ room]) simp
  then have s2: "BooleanArrayCodec_set_flush False
          (BooleanArrayCodec_set_loop (map JBool ?bs) (write_bytes ?sv [128]) 0 0 False)
        = Inr (write_bytes (write_bytes ?sv [128]) (replicate 268435456 0))"
    by (simp add: pb)
  have wr: "write_bytes (write_bytes ?sv [128]) (replicate 268435456 0)
            = \<lparr>dataView = 128 # replicate 268435460 0, byteOffset = 268435457\<rparr>"
    by (simp add: write_bytes_def StreamView_create_def replicate_add [symmetric])
  have 2: "BooleanArrayCodec_set ?sv (JArr (replicate 2147483648 (JBool False))) False
           = Inr \<lparr>dataView = 128 # replicate 268435460 0, byteOffset = 268435457\<rparr>"
    unfolding vs using s1 s2 wr by (simp add: BooleanArrayCodec_set_def)
  have 3: "spec_varint 2147483648 = [128, 128, 128, 128, 8]"
    by (simp add: spec_varint.simps)
  have h: "holds_at \<lparr>dataView = 128 # replicate 268435460 0, byteOffset = 0\<rparr> [128, 0]"
    by (simp add: holds_at_def)
  have 4: "BooleanArrayCodec_get \<lparr>dataView = 128 # replicate 268435460 0, byteOffset = 0\<rparr> False
       = Inr (JArr [], \<lparr>dataView = 128 # replicate 268435460 0, byteOffset = 2\<rparr>)"
    using VariableLength_get_128_0 [OF h, of False]
    by (simp add: BooleanArrayCodec_get_def Math_ceil_div_def)
  from 1 2 3 4 show ?thesis by blast
qed

section \<open>Out-of-range accesses\<close>

lemma DataView_get_out_of_range:
  "off + accessor_bytes acc > length buf \<Longrightarrow> DataView_get acc buf off le = Inl RangeError"
  by (cases acc) (simp_all add: DataView_getUint_def DataView_getInt_def)

lemma FixedLengthCodec_get_out_of_range:
  "byteOffset sv + accessor_bytes (getter c) > length (dataView sv)
   \<Longrightarrow> FixedLengthCodec_get c sv le = Inl RangeError"
  by (simp add: FixedLengthCodec_get_def DataView_get_out_of_range)

text \<open>
  Claim C9. A cursor read or write whose offset plus access width exceeds the capacity
  of the buffer fails with the out-of-range error: the codec passes its offset to the
  \<^verbatim>\<open>DataView\<close> accessor, neither clamps nor wraps it, and lets the accessor's error
  through. Reading a 4-byte integer, signed or unsigned, with fewer than 4 bytes
  left fails so.
\<close>

theorem cursor_access_out_of_range:
  "(byteOffset sv + accessor_bytes (getter c) > length (dataView sv)
      \<longrightarrow> FixedLengthCodec_get c sv le = Inl RangeError)
   \<and> (byteOffset sv + accessor_bytes (setter c) > length (dataView sv)
      \<longrightarrow> FixedLengthCodec_set c sv v le = Inl RangeError)
   \<and> (length (dataView sv) - byteOffset sv < 4
      \<longrightarrow> FixedLengthCodec_get codecs_int32 sv le = Inl RangeError
        \<and> FixedLengthCodec_get codecs_uint32 sv le = Inl RangeError
        \<and> codec_get (CInteger codecs_int32) sv le = Inl RangeError)"
proof -
  have g: "byteOffset sv + accessor_bytes (getter c) > length (dataView sv)
      \<longrightarrow> FixedLengthCodec_get c sv le = Inl RangeError"
    by (simp add: FixedLengthCodec_get_def DataView_get_out_of_range)
  have s: "byteOffset sv + accessor_bytes (setter c) > length (dataView sv)
      \<longrightarrow> FixedLengthCodec_set c sv v le = Inl RangeError"
    by (simp add: FixedLengthCodec_set_def DataView_set_def)
  have i: "length (dataView sv) - byteOffset sv < 4
      \<longrightarrow> FixedLengthCodec_get codecs_int32 sv le = Inl RangeError
        \<and> FixedLengthCodec_get codecs_uint32 sv le = Inl RangeError
        \<and> codec_get (CInteger codecs_int32) sv le = Inl RangeError"
  proof
    assume "length (dataView sv) - byteOffset sv < 4"
    then have "byteOffset sv + 4 > length (dataView sv)" by simp
    then have "byteOffset sv + accessor_bytes (getter codecs_int32) > length (dataView sv)"
      "byteOffset sv + accessor_bytes (getter codecs_uint32) > length (dataView sv)"
      by (simp_all add: codecs_int32_def codecs_uint32_def)
    then show "FixedLengthCodec_get codecs_int32 sv le = Inl RangeError
        \<and> FixedLengthCodec_get codecs_uint32 sv le = Inl RangeError
        \<and> codec_get (CInteger codecs_int32) sv le = Inl RangeError"
      by (simp add: FixedLengthCodec_get_out_of_range)
  qed
  from g s i show ?thesis by blast
qed

theorem cursor_access_out_of_range_witness:
  "FixedLengthCodec_get codecs_int32 \<lparr>dataView = [1, 2, 3, 4, 5], byteOffset = 2\<rparr> False
   = Inl RangeError
   \<and> FixedLengthCodec_set codecs_uint16 \<lparr>dataView = [1, 2, 3], byteOffset = 2\<rparr> (JNum 7) True
   = Inl RangeError
   \<and> FixedLengthCodec_get codecs_int32 \<lparr>dataView = [1, 2, 3, 4, 5], byteOffset = 1\<rparr> False
   = Inr (JNum 33752069, \<lparr>dataView = [1, 2, 3, 4, 5], byteOffset = 5\<rparr>)"
proof -
  have a: "byteOffset \<lparr>dataView = [1, 2, 3, 4, 5 :: byte], byteOffset = 2\<rparr>
             + accessor_bytes (getter codecs_int32)
           > length (dataView \<lparr>dataView = [1, 2, 3, 4, 5 :: byte], byteOffset = 2\<rparr>)"
    by (simp add: codecs_int32_def)
  have b: "byteOffset \<lparr>dataView = [1, 2, 3 :: byte], byteOffset = 2\<rparr>
             + accessor_bytes (setter codecs_uint16)
           > length (dataView \<lparr>dataView = [1, 2, 3 :: byte], byteOffset = 2\<rparr>)"
    by (simp add: codecs_uint16_def)
  have c: "FixedLengthCodec_get codecs_int32 \<lparr>dataView = [1, 2, 3, 4, 5], byteOffset = 1\<rparr> False
           = Inr (JNum 33752069, \<lparr>dataView = [1, 2, 3, 4, 5], byteOffset = 5\<rparr>)"
    by (simp add: FixedLengthCodec_get_def codecs_int32_def DataView_getInt_def
        DataView_getUint_def byte_order_def)
  from cursor_access_out_of_range
         [of "\<lparr>dataView = [1, 2, 3, 4, 5], byteOffset = 2\<rparr>" codecs_int32 False]
       cursor_access_out_of_range
         [of "\<lparr>dataView = [1, 2, 3], byteOffset = 2\<rparr>" codecs_uint16 True "JNum 7"]
       a b c
  show ?thesis by blast
qed

section \<open>Strings\<close>

lemma length_utf8_encodeCodePoint:
  "1 \<le> length (utf8_encodeCodePoint cp)" "128 \<le> cp \<Longrightarrow> 2 \<le> length (utf8_encodeCodePoint cp)"
  by simp_all

lemma length_utf8_encode_ge: "length s \<le> length (utf8_encode s)"
proof (induction s)
  case Nil
  then show ?case by (simp add: utf8_encode_def)
next
  case (Cons c s)
  have "1 \<le> length (utf8_encodeCodePoint c)" by (rule length_utf8_encodeCodePoint)
  with Cons show ?case by (simp add: utf8_encode_def del: utf8_encodeCodePoint.simps)
qed

lemma length_utf8_encode_gt:
  "\<exists>c\<in>set s. 128 \<le> c \<Longrightarrow> length s < length (utf8_encode s)"
proof (induction s)
  case Nil
  then show ?case by simp
next
  case (Cons c s)
  have e: "length (utf8_encode (c # s)) = length (utf8_encodeCodePoint c) + length (utf8_encode s)"
    by (simp add: utf8_encode_def del: utf8_encodeCodePoint.simps)
  show ?case
  proof (cases "128 \<le> c")
    case True
    from length_utf8_encodeCodePoint(2) [OF True] length_utf8_encode_ge [of s]
    show ?thesis unfolding e by simp
  next
    case False
    with Cons.prems have "\<exists>c\<in>set s. 128 \<le> c" by auto
    from Cons.IH [OF this] length_utf8_encodeCodePoint(1) [of c]
    show ?thesis unfolding e by simp
  qed
qed

lemma VariableLength_set_zero:
  assumes "byteOffset sv < length (dataView sv)"
  shows "VariableLengthUnsignedIntegerCodec_set sv (JNum 0) le = Inr (write_bytes sv [0])"
  using uint8_set_writes [OF _ _ assms, of 0 le]
  by (simp add: VariableLengthUnsignedIntegerCodec_set_def)

lemma uint32_set_zero:
  assumes "byteOffset sv + 4 \<le> length (dataView sv)"
  shows "IntegerCodec_set codecs_uint32 sv (JNum 0) le = Inr (write_bytes sv [0, 0, 0, 0])"
proof -
  have "(4::nat) = Suc (Suc (Suc (Suc 0)))" by simp
  then have "le_bytes 4 0 = [0, 0, 0, 0]" by (simp only: le_bytes.simps) simp
  moreover have "length [0, 0, 0, 0 :: byte] = 4" by simp
  ultimately show ?thesis using assms
    by (simp add: IntegerCodec_set_def codecs_uint32_def FixedLengthCodec_set_def DataView_set_def
        DataView_setInt_def write_bytes_def byte_order_def del: list.size)
qed

text \<open>
  Claim C7, as amended. In \<^verbatim>\<open>src/jettison.js\<close> the string codec writes the empty and the
  absent value as the single byte 0 and measures them as 1 byte; for every string its
  \<^verbatim>\<open>getByteLength\<close> is the length of the variable-length prefix plus the number of
  UTF-8 bytes, which is never below the number of characters and is above it as soon
  as one character is outside ASCII. In the earlier revision the prefix is an unsigned
  32-bit integer: the empty and the absent value are written as four zero bytes, and
  \<^verbatim>\<open>getByteLength\<close> of a string is 4 plus the number of UTF-8 bytes.
\<close>

theorem StringCodec_empty_and_utf8_length:
  "StringCodec_getByteLength (JStr s)
     = Inr (VariableLengthUnsignedIntegerCodec_getByteLength (length (utf8_encode s))
            + length (utf8_encode s))
   \<and> StringCodec_getByteLength JUndefined = Inr 1
   \<and> StringCodec_getByteLength (JStr []) = Inr 1
   \<and> (byteOffset sv < length (dataView sv) \<longrightarrow>
         StringCodec_set sv JUndefined le = Inr (write_bytes sv [0])
         \<and> StringCodec_set sv (JStr []) le = Inr (write_bytes sv [0]))
   \<and> length s \<le> length (utf8_encode s)
   \<and> ((\<exists>c\<in>set s. 128 \<le> c) \<longrightarrow> length s < length (utf8_encode s))
   \<and> StringCodec_getByteLength (JStr [0xE9]) = Inr 3
   \<and> part0_StringCodec_getByteLength (JStr s) = Inr (4 + length (utf8_encode s))
   \<and> (byteOffset sv + 4 \<le> length (dataView sv) \<longrightarrow>
         part0_StringCodec_set sv JUndefined le = Inr (write_bytes sv [0, 0, 0, 0])
         \<and> part0_StringCodec_set sv (JStr []) le = Inr (write_bytes sv [0, 0, 0, 0]))"
proof -
  have e: "utf8_encode [] = []" by (simp add: utf8_encode_def)
  have 1: "StringCodec_getByteLength (JStr s)
     = Inr (VariableLengthUnsignedIntegerCodec_getByteLength (length (utf8_encode s))
            + length (utf8_encode s))"
    by (cases "s = []") (simp_all add: StringCodec_getByteLength_def e codecs_uint8_def Let_def)
  have 2: "StringCodec_getByteLength JUndefined = Inr 1" "StringCodec_getByteLength (JStr []) = Inr 1"
    by (simp_all add: StringCodec_getByteLength_def getByteLength_small)
  have 3: "byteOffset sv < length (dataView sv) \<longrightarrow>
         StringCodec_set sv JUndefined le = Inr (write_bytes sv [0])
         \<and> StringCodec_set sv (JStr []) le = Inr (write_bytes sv [0])"
    by (simp add: StringCodec_set_def VariableLength_set_zero)
  have 4: "StringCodec_getByteLength (JStr [0xE9]) = Inr 3"
    by (simp add: StringCodec_getByteLength_def utf8_encode_def getByteLength_small
        codecs_uint8_def Let_def)
  have 5: "part0_StringCodec_getByteLength (JStr s) = Inr (4 + length (utf8_encode s))"
    by (cases "s = []")
       (simp_all add: part0_StringCodec_getByteLength_def e codecs_uint8_def codecs_uint32_def Let_def)
  have 6: "byteOffset sv + 4 \<le> length (dataView sv) \<longrightarrow>
         part0_StringCodec_set sv JUndefined le = Inr (write_bytes sv [0, 0, 0, 0])
         \<and> part0_StringCodec_set sv (JStr []) le = Inr (write_bytes sv [0, 0, 0, 0])"
    by (simp add: part0_StringCodec_set_def uint32_set_zero)
  from 1 2 3 4 5 6 length_utf8_encode_ge [of s] length_utf8_encode_gt [of s]
  show ?thesis by blast
qed

theorem StringCodec_empty_and_utf8_length_witness:
  "StringCodec_set (StreamView_create 1) JUndefined False = Inr \<lparr>dataView = [0], byteOffset = 1\<rparr>
   \<and> StringCodec_set (StreamView_create 1) (JStr []) False = Inr \<lparr>dataView = [0], byteOffset = 1\<rparr>
   \<and> (\<exists>c\<in>set [0x41, 0xE9]. (128::nat) \<le> c)
   \<and> length [0x41, 0xE9 :: nat] < length (utf8_encode [0x41, 0xE9])
   \<and> StringCodec_getByteLength (JStr [0x41, 0xE9]) = Inr 4
   \<and> part0_StringCodec_set (StreamView_create 4) (JStr []) False
       = Inr \<lparr>dataView = [0, 0, 0, 0], byteOffset = 4\<rparr>"
proof -
  have r1: "byteOffset (StreamView_create 1) < length (dataView (StreamView_create 1))"
    by (simp add: StreamView_create_def)
  have r4: "byteOffset (StreamView_create 4) + 4 \<le> length (dataView (StreamView_create 4))"
    by (simp add: StreamView_create_def)
  have ex: "\<exists>c\<in>set [0x41, 0xE9]. (128::nat) \<le> c" by simp
  have w1: "write_bytes (StreamView_create 1) [0] = \<lparr>dataView = [0], byteOffset = 1\<rparr>"
    by (simp add: write_bytes_def StreamView_create_def)
  have w4: "write_bytes (StreamView_create 4) [0, 0, 0, 0] = \<lparr>dataView = [0, 0, 0, 0], byteOffset = 4\<rparr>"
    by (simp add: write_bytes_def StreamView_create_def)
  have u: "length (utf8_encode [0x41, 0xE9]) = 3" by (simp add: utf8_encode_def)
  have g: "VariableLengthUnsignedIntegerCodec_getByteLength 3 = 1" by (simp add: getByteLength_small)
  from StringCodec_empty_and_utf8_length [of "[0x41, 0xE9]" "StreamView_create 1" False]
       StringCodec_empty_and_utf8_length [of "[0x41, 0xE9]" "StreamView_create 4" False]
       r1 r4 ex
  show ?thesis unfolding u g w1 [symmetric] w4 [symmetric] by simp
qed

text \<open>
  Claim C7 as stated fails on the earlier revision: there the absent value is written
  as four bytes, and does not fit a buffer of one.
\<close>

theorem part0_StringCodec_empty_is_four_bytes:
  "part0_StringCodec_set (StreamView_create 4) JUndefined False
     = Inr \<lparr>dataView = [0, 0, 0, 0], byteOffset = 4\<rparr>
   \<and> part0_StringCodec_set (StreamView_create 1) JUndefined False = Inl RangeError"
proof -
  have r4: "byteOffset (StreamView_create 4) + 4 \<le> length (dataView (StreamView_create 4))"
    by (simp add: StreamView_create_def)
  have w4: "write_bytes (StreamView_create 4) [0, 0, 0, 0] = \<lparr>dataView = [0, 0, 0, 0], byteOffset = 4\<rparr>"
    by (simp add: write_bytes_def StreamView_create_def)
  have "part0_StringCodec_set (StreamView_create 4) JUndefined False
     = Inr (write_bytes (StreamView_create 4) [0, 0, 0, 0])"
    by (simp add: part0_StringCodec_set_def uint32_set_zero [OF r4])
  then have a: "part0_StringCodec_set (StreamView_create 4) JUndefined False
     = Inr \<lparr>dataView = [0, 0, 0, 0], byteOffset = 4\<rparr>"
    unfolding w4 .
  have b: "part0_StringCodec_set (StreamView_create 1) JUndefined False = Inl RangeError"
    by (simp add: part0_StringCodec_set_def IntegerCodec_set_def FixedLengthCodec_set_def
        DataView_set_def codecs_uint32_def StreamView_create_def)
  from a b show ?thesis by blast
qed

section \<open>Arrays, fields and definitions\<close>

text \<open>
  Claim C2 says that every codec writes exactly \<^verbatim>\<open>getByteLength(value)\<close> bytes, so that
  \<^verbatim>\<open>stringify\<close> fills its buffer exactly, also for an empty or absent array. The array
  codec of the earlier revision breaks this: for an empty or absent array its
  \<^verbatim>\<open>getByteLength\<close> returns 0, while its \<^verbatim>\<open>set\<close> writes the four bytes of the length.
  A definition with one array field therefore allocates no bytes for such a value and
  \<^verbatim>\<open>stringify\<close> fails with the out-of-range error. The array codec of
  \<^verbatim>\<open>src/jettison.js\<close> counts the prefix: there the same value is measured as 1 byte and
  \<^verbatim>\<open>stringify\<close> returns the single byte 0.
\<close>

theorem part0_stringify_empty_array_out_of_range:
  "part0_define [\<lparr>opt_key = Some ''a'', opt_type = Some ''array'', opt_valueType = Some ''uint8''\<rparr>]
     = Inr \<lparr>p0_fields = [\<lparr>p0_key = ''a'', p0_type = ''array'', p0_valueType = Some ''uint8'',
                         p0_codec = Some (P0Array (P0Integer codecs_uint8))\<rparr>],
            p0_id = None, p0_defkey = None, p0_littleEndian = False, p0_byteLength = None\<rparr>
   \<and> part0_codec_getByteLength (P0Array (P0Integer codecs_uint8)) (JArr []) = Inr 0
   \<and> part0_codec_getByteLength (P0Array (P0Integer codecs_uint8)) JUndefined = Inr 0
   \<and> part0_codec_set (P0Array (P0Integer codecs_uint8)) (StreamView_create 4) (JArr []) False
       = Inr \<lparr>dataView = [0, 0, 0, 0], byteOffset = 4\<rparr>
   \<and> part0_codec_set (P0Array (P0Integer codecs_uint8)) (StreamView_create 4) JUndefined False
       = Inr \<lparr>dataView = [0, 0, 0, 0], byteOffset = 4\<rparr>
   \<and> fst (part0_Definition_stringify
         \<lparr>p0_fields = [\<lparr>p0_key = ''a'', p0_type = ''array'', p0_valueType = Some ''uint8'',
                         p0_codec = Some (P0Array (P0Integer codecs_uint8))\<rparr>],
            p0_id = None, p0_defkey = None, p0_littleEndian = False, p0_byteLength = None\<rparr>
         (JObj [(''a'', JArr [])])) = Inl RangeError
   \<and> fst (part0_Definition_stringify
         \<lparr>p0_fields = [\<lparr>p0_key = ''a'', p0_type = ''array'', p0_valueType = Some ''uint8'',
                         p0_codec = Some (P0Array (P0Integer codecs_uint8))\<rparr>],
            p0_id = None, p0_defkey = None, p0_littleEndian = False, p0_byteLength = None\<rparr>
         (JObj [])) = Inl RangeError
   \<and> codec_getByteLength (CArray (CInteger codecs_uint8)) (JArr []) = Inr 1
   \<and> fst (Definition_stringify
         \<lparr>def_codec = Object \<lparr>oc_fields = [\<lparr>key = ''a'', type = ''array'',
                                              valueType = Some ''uint8'',
                                              codec = Some (CArray (CInteger codecs_uint8))\<rparr>],
                                oc_byteLength = None\<rparr>,
            def_id = None, def_key = None\<rparr>
         (JObj [(''a'', JArr [])])) = Inr [0]"
  by code_simp

lemma codecs_undefined_names:
  assumes "isValidType (Some t)" "t \<noteq> ''array''"
  shows "map_of codecs t = None \<longleftrightarrow> t \<in> {''float'', ''int'', ''object''}"
proof -
  have n: "map_of codecs ''float'' = None" "map_of codecs ''int'' = None"
          "map_of codecs ''object'' = None"
    by (simp_all add: codecs_def)
  have s: "map_of codecs ''boolean'' \<noteq> None" "map_of codecs ''booleanArray'' \<noteq> None"
          "map_of codecs ''string'' \<noteq> None" "map_of codecs ''variableLength'' \<noteq> None"
    by (simp_all add: codecs_def)
  from assms(1) consider "t \<in> set codecTypes" | "map_of codecs t \<noteq> None"
    unfolding isValidType_def by auto
  then show ?thesis
  proof cases
    case 1
    then have "t = ''array'' \<or> t = ''boolean'' \<or> t = ''booleanArray'' \<or> t = ''float''
               \<or> t = ''int'' \<or> t = ''object'' \<or> t = ''string'' \<or> t = ''variableLength''"
      unfolding codecTypes_def by simp
    with assms(2) n s show ?thesis by (elim disjE) simp_all
  next
    case 2
    with n show ?thesis by auto
  qed
qed

lemma Field_new_rejects:
  "opt_key opts = None \<or> opt_key opts = Some [] \<Longrightarrow> Field_new opts = Inl KeyRequired"
  "opt_key opts = Some k \<Longrightarrow> k \<noteq> [] \<Longrightarrow> \<not> isValidType (opt_type opts)
   \<Longrightarrow> Field_new opts = Inl (InvalidType (opt_type opts))"
  "opt_key opts = Some k \<Longrightarrow> k \<noteq> [] \<Longrightarrow> opt_type opts = Some ''array''
   \<Longrightarrow> opt_valueType opts = Some ''array'' \<or> opt_valueType opts = Some ''string''
       \<or> \<not> isValidType (opt_valueType opts)
   \<Longrightarrow> Field_new opts = Inl (InvalidArrayValueType (opt_valueType opts))"
proof -
  show "opt_key opts = None \<or> opt_key opts = Some [] \<Longrightarrow> Field_new opts = Inl KeyRequired"
    unfolding Field_new_def by (auto split: option.splits)
  show "opt_key opts = Some k \<Longrightarrow> k \<noteq> [] \<Longrightarrow> \<not> isValidType (opt_type opts)
   \<Longrightarrow> Field_new opts = Inl (InvalidType (opt_type opts))"
    unfolding Field_new_def by simp
  have v: "isValidType (Some ''array'')" by (simp add: isValidType_def codecTypes_def)
  show "opt_key opts = Some k \<Longrightarrow> k \<noteq> [] \<Longrightarrow> opt_type opts = Some ''array''
   \<Longrightarrow> opt_valueType opts = Some ''array'' \<or> opt_valueType opts = Some ''string''
       \<or> \<not> isValidType (opt_valueType opts)
   \<Longrightarrow> Field_new opts = Inl (InvalidArrayValueType (opt_valueType opts))"
    unfolding Field_new_def using v by auto
qed

lemma Field_new_codec_undefined:
  assumes "Field_new opts = Inr f"
  shows "codec f = None \<longleftrightarrow> type f \<in> {''float'', ''int'', ''object''}"
proof -
  from assms obtain k where k: "opt_key opts = Some k" "k \<noteq> []"
    unfolding Field_new_def by (auto split: option.splits if_splits)
  from assms k obtain t where t: "opt_type opts = Some t" "isValidType (Some t)"
    unfolding Field_new_def isValidType_def by (auto split: option.splits if_splits)
  show ?thesis
  proof (cases "t = ''array''")
    case True
    with assms k t obtain c where "f = \<lparr>key = k, type = ''array'',
          valueType = opt_valueType opts, codec = Some c\<rparr>"
      unfolding Field_new_def by (auto split: if_splits sum.splits)
    then show ?thesis by simp
  next
    case False
    with assms k t have "f = \<lparr>key = k, type = t, valueType = opt_valueType opts,
                              codec = map_of codecs t\<rparr>"
      unfolding Field_new_def by simp
    with codecs_undefined_names [OF t(2) False] show ?thesis by simp
  qed
qed

lemma part0_codecs_defined:
  assumes "part0_isValidType (Some t)" "t \<noteq> ''array''"
  shows "map_of part0_codecs t \<noteq> None"
proof -
  from assms have "t \<in> {''string'', ''boolean'', ''int8'', ''int16'', ''int32'',
                      ''uint8'', ''uint16'', ''uint32'', ''float32'', ''float64''}"
    unfolding part0_isValidType_def by auto
  then show ?thesis unfolding part0_codecs_def by (elim insertE emptyE) simp_all
qed

lemma part0_Field_new_codec_defined:
  assumes "part0_Field_new opts = Inr f"
  shows "p0_codec f \<noteq> None"
proof -
  from assms obtain k where k: "opt_key opts = Some k" "k \<noteq> []"
    unfolding part0_Field_new_def by (auto split: option.splits if_splits)
  from assms k obtain t where t: "opt_type opts = Some t" "part0_isValidType (Some t)"
    unfolding part0_Field_new_def part0_isValidType_def by (auto split: option.splits if_splits)
  show ?thesis
  proof (cases "t = ''array''")
    case True
    with assms k t obtain c where "f = \<lparr>p0_key = k, p0_type = ''array'',
          p0_valueType = opt_valueType opts, p0_codec = Some c\<rparr>"
      unfolding part0_Field_new_def by (auto split: if_splits sum.splits)
    then show ?thesis by simp
  next
    case False
    with assms k t have "f = \<lparr>p0_key = k, p0_type = t, p0_valueType = opt_valueType opts,
                              p0_codec = map_of part0_codecs t\<rparr>"
      unfolding part0_Field_new_def by simp
    with part0_codecs_defined [OF t(2) False] show ?thesis by simp
  qed
qed

text \<open>
  Claim C3 says that a field that was constructed can never fail later for its shape.
  The constructor does reject an empty key, an unrecognised type and a bad array
  element type (\<open>Field_new_rejects\<close>), but \<^verbatim>\<open>isValidType\<close> also accepts the names of
  \<^verbatim>\<open>_codecTypes\<close>, and three of them, \<^verbatim>\<open>float\<close>, \<^verbatim>\<open>int\<close> and \<^verbatim>\<open>object\<close>, have no instance in
  \<^verbatim>\<open>_codecs\<close> (\<open>Field_new_codec_undefined\<close>). A field of type \<^verbatim>\<open>int\<close> is constructed with
  an undefined codec, the definition that holds it is constructed too, and both
  \<^verbatim>\<open>stringify\<close> and \<^verbatim>\<open>parse\<close> then fail with a \<^verbatim>\<open>TypeError\<close>. The earlier revision, whose
  \<^verbatim>\<open>isValidType\<close> lists the codec names, rejects the same field at construction.
\<close>

theorem Field_of_type_int_fails_at_encode_time:
  "Field_new \<lparr>opt_key = Some ''a'', opt_type = Some ''int'', opt_valueType = None\<rparr>
     = Inr \<lparr>key = ''a'', type = ''int'', valueType = None, codec = None\<rparr>
   \<and> Definition_new (TypeName ''object'') None None
         [ArgFields [\<lparr>opt_key = Some ''a'', opt_type = Some ''int'', opt_valueType = None\<rparr>]]
       = Inr \<lparr>def_codec = Object \<lparr>oc_fields = [\<lparr>key = ''a'', type = ''int'', valueType = None,
                                                 codec = None\<rparr>],
                                   oc_byteLength = None\<rparr>,
               def_id = None, def_key = None\<rparr>
   \<and> fst (Definition_stringify
         \<lparr>def_codec = Object \<lparr>oc_fields = [\<lparr>key = ''a'', type = ''int'', valueType = None,
                                              codec = None\<rparr>],
                                oc_byteLength = None\<rparr>,
            def_id = None, def_key = None\<rparr>
         (JObj [(''a'', JNum 1)])) = Inl TypeError
   \<and> Definition_parse
         \<lparr>def_codec = Object \<lparr>oc_fields = [\<lparr>key = ''a'', type = ''int'', valueType = None,
                                              codec = None\<rparr>],
                                oc_byteLength = None\<rparr>,
            def_id = None, def_key = None\<rparr>
         [1] = Inl TypeError
   \<and> part0_Field_new \<lparr>opt_key = Some ''a'', opt_type = Some ''int'', opt_valueType = None\<rparr>
       = Inl (InvalidType (Some ''int''))"
  by code_simp

section \<open>Schemas\<close>
















lemma fields_as_codec:
  "fst (Schema_stringify example_schema_fields_as_codec ''pong'' (JObj [(''n'', JNum 5)]))
   = Inl TypeError"
  "map_option def_id (definitions example_schema_fields_as_codec ''pong'') = Some (Some 2)"
  by code_simp+




end
